theory Spec2Isabelle
  imports Main "HOL-Library.AList"
begin

section \<open>Python values and exceptions\<close>

text \<open>
  The notebook \<^verbatim>\<open>mlx-fine-tuning.ipynb\<close> defines four pieces of code of its own: the class
  \<^verbatim>\<open>Dataset\<close>, and the functions \<^verbatim>\<open>load_dataset\<close>, \<^verbatim>\<open>modify_model_with_lora\<close> and
  \<^verbatim>\<open>train_model\<close>. They are embedded here as HOL functions. Every exception the Python code
  can raise is a value of the type \<open>error\<close>; a function that can raise returns
  \<open>error + 'a\<close>, with \<open>Inl\<close> for the exception.

  A Python \<^verbatim>\<open>str\<close> is represented by its UTF-8 encoding, a \<open>string\<close> of HOL; all characters
  with a meaning for the code (quotes, brackets, line feeds, digits) are ASCII.
\<close>

datatype error =
    FileNotFoundError string
  | IsADirectoryError string
  | JSONDecodeError string
  | IndexError
  | KeyError string
  | TypeError
  | AttributeError string

text \<open>
  The values \<^verbatim>\<open>json.loads\<close> returns: \<^verbatim>\<open>None\<close>, \<^verbatim>\<open>bool\<close>, \<^verbatim>\<open>int\<close>, \<^verbatim>\<open>float\<close>, \<^verbatim>\<open>str\<close>,
  \<^verbatim>\<open>list\<close> and \<^verbatim>\<open>dict\<close>. A float is kept as the text it was read from, since no floating-point
  arithmetic is done on it. A dict is an association list in insertion order, with distinct
  keys when it is built by \<open>dict_of_pairs\<close>.
\<close>

datatype pyobject =
    PyNone
  | PyBool bool
  | PyInt int
  | PyFloat string
  | PyStr string
  | PyList "pyobject list"
  | PyDict "(string \<times> pyobject) list"

text \<open>
  \<^verbatim>\<open>xs[idx]\<close> on a Python list: a negative index counts from the end, and an index outside
  \<open>-len(xs) \<le> idx < len(xs)\<close> raises \<^verbatim>\<open>IndexError\<close>.
\<close>

definition list_getitem :: "'a list \<Rightarrow> int \<Rightarrow> error + 'a" where
  "list_getitem xs idx =
     (let n = int (length xs); j = (if idx < 0 then idx + n else idx)
      in if 0 \<le> j \<and> j < n then Inr (xs ! nat j) else Inl IndexError)"

text \<open>
  \<^verbatim>\<open>v[key]\<close> with a \<^verbatim>\<open>str\<close> key: a dict looks the key up and raises \<^verbatim>\<open>KeyError\<close> when it is
  missing; every other value \<^verbatim>\<open>json.loads\<close> can return raises \<^verbatim>\<open>TypeError\<close> (a list or a
  string takes integer indices only, the others are not subscriptable).
\<close>

fun subscript :: "pyobject \<Rightarrow> string \<Rightarrow> error + pyobject" where
  "subscript (PyDict kvs) k =
     (case map_of kvs k of None \<Rightarrow> Inl (KeyError k) | Some v \<Rightarrow> Inr v)"
| "subscript _ k = Inl TypeError"

section \<open>The class \<^verbatim>\<open>Dataset\<close>\<close>

text \<open>
  \<^verbatim>\<open>
  class Dataset:
      def __init__(self, data, key: str = "text"):
          self._data = data
          self._key = key

      def __getitem__(self, idx: int):
          return self._data[idx][self._key]

      def __len__(self):
          return len(self._data)
  \<close>
  The fields \<^verbatim>\<open>_data\<close> and \<^verbatim>\<open>_key\<close> are \<open>data\<close> and \<open>key\<close> here. In this program \<^verbatim>\<open>_data\<close> is
  always the list that \<^verbatim>\<open>load_dataset\<close> builds.
\<close>

record Dataset =
  data :: "pyobject list"
  key :: string

definition Dataset_init :: "pyobject list \<Rightarrow> string \<Rightarrow> Dataset" where
  "Dataset_init d k = \<lparr>data = d, key = k\<rparr>"

definition getitem :: "Dataset \<Rightarrow> int \<Rightarrow> error + pyobject" where
  "getitem self idx =
     (case list_getitem (data self) idx of
        Inl e \<Rightarrow> Inl e
      | Inr rec \<Rightarrow> subscript rec (key self))"

definition len :: "Dataset \<Rightarrow> nat" where
  "len self = length (data self)"

section \<open>\<^verbatim>\<open>json.loads\<close>\<close>

text \<open>
  The decoder of the Python standard library, which \<^verbatim>\<open>load_dataset\<close> calls on every line.
  The functions follow \<^verbatim>\<open>json.decoder\<close> and \<^verbatim>\<open>json.scanner\<close>: \<^verbatim>\<open>scanstring\<close>, the number
  pattern, \<^verbatim>\<open>scan_once\<close>, \<^verbatim>\<open>JSONArray\<close>, \<^verbatim>\<open>JSONObject\<close> and \<^verbatim>\<open>decode\<close>. A position in the text
  is the rest of the text from there on. Every failure of the decoder is a
  \<^verbatim>\<open>JSONDecodeError\<close>; \<open>None\<close> stands for it inside the decoder.
\<close>

definition LF :: char where "LF = CHR 0x0A"
definition CR :: char where "CR = CHR 0x0D"
definition TAB :: char where "TAB = CHR 0x09"
definition DQUOTE :: char where "DQUOTE = CHR 0x22"
definition BACKSLASH :: char where "BACKSLASH = CHR 0x5C"

definition is_ws :: "char \<Rightarrow> bool" where
  "is_ws c = (c = CHR '' '' \<or> c = TAB \<or> c = LF \<or> c = CR)"

definition skip_ws :: "string \<Rightarrow> string" where
  "skip_ws s = dropWhile is_ws s"

definition is_digit :: "char \<Rightarrow> bool" where
  "is_digit c = (c \<in> set ''0123456789'')"

definition hexval :: "char \<Rightarrow> nat option" where
  "hexval c = map_of (zip ''0123456789abcdefABCDEF''
     [0, 1, 2, 3, 4, 5, 6, 7, 8, 9, 10, 11, 12, 13, 14, 15, 10, 11, 12, 13, 14, 15]) c"

text \<open>The four hexadecimal digits of a \<^verbatim>\<open>\uXXXX\<close> escape.\<close>

definition decode_uXXXX :: "string \<Rightarrow> nat option" where
  "decode_uXXXX s =
     (case map hexval (take 4 s) of
        [Some a, Some b, Some c, Some d] \<Rightarrow> Some (((a * 16 + b) * 16 + c) * 16 + d)
      | _ \<Rightarrow> None)"

text \<open>\<^verbatim>\<open>chr(uni)\<close>, in the UTF-8 representation of strings.\<close>

definition chr_utf8 :: "nat \<Rightarrow> string" where
  "chr_utf8 u =
     (if u < 0x80 then [char_of u]
      else if u < 0x800 then [char_of (0xC0 + u div 64), char_of (0x80 + u mod 64)]
      else if u < 0x10000 then
        [char_of (0xE0 + u div 4096), char_of (0x80 + u div 64 mod 64), char_of (0x80 + u mod 64)]
      else
        [char_of (0xF0 + u div 262144), char_of (0x80 + u div 4096 mod 64),
         char_of (0x80 + u div 64 mod 64), char_of (0x80 + u mod 64)])"

definition backslash :: "char \<Rightarrow> char option" where
  "backslash e =
     (if e = DQUOTE then Some DQUOTE
      else if e = BACKSLASH then Some BACKSLASH
      else if e = CHR ''/'' then Some (CHR ''/'')
      else if e = CHR ''b'' then Some (CHR 0x08)
      else if e = CHR ''f'' then Some (CHR 0x0C)
      else if e = CHR ''n'' then Some LF
      else if e = CHR ''r'' then Some CR
      else if e = CHR ''t'' then Some TAB
      else None)"

definition cons_chunk :: "string \<Rightarrow> (string \<times> string) option \<Rightarrow> (string \<times> string) option" where
  "cons_chunk chunk res = map_option (\<lambda>(str, rest). (chunk @ str, rest)) res"

text \<open>
  \<^verbatim>\<open>scanstring(s, end)\<close>, called just after the opening quote, in strict mode: the string
  ends at the next unescaped quote, a control character below \<open>0x20\<close> is refused, and a
  high surrogate escape followed by a low surrogate escape is one code point.
\<close>

fun scanstring :: "string \<Rightarrow> (string \<times> string) option" where
  "scanstring [] = None"
| "scanstring (c # s) =
     (if c = DQUOTE then Some ([], s)
      else if c = BACKSLASH then
        (case s of
           [] \<Rightarrow> None
         | e # s' \<Rightarrow>
             if e = CHR ''u'' then
               (case decode_uXXXX s' of
                  None \<Rightarrow> None
                | Some uni \<Rightarrow>
                    if 0xD800 \<le> uni \<and> uni \<le> 0xDBFF \<and> take 2 (drop 4 s') = [BACKSLASH, CHR ''u'']
                    then
                      (case decode_uXXXX (drop 6 s') of
                         None \<Rightarrow> None
                       | Some uni2 \<Rightarrow>
                           if 0xDC00 \<le> uni2 \<and> uni2 \<le> 0xDFFF
                           then cons_chunk
                                  (chr_utf8 (0x10000 + ((uni - 0xD800) * 1024 + (uni2 - 0xDC00))))
                                  (scanstring (drop 10 s'))
                           else cons_chunk (chr_utf8 uni) (scanstring (drop 4 s')))
                    else cons_chunk (chr_utf8 uni) (scanstring (drop 4 s')))
             else
               (case backslash e of
                  None \<Rightarrow> None
                | Some ch \<Rightarrow> cons_chunk [ch] (scanstring s')))
      else if of_char c < (0x20 :: nat) then None
      else cons_chunk [c] (scanstring s))"

text \<open>
  The number pattern of the scanner,
  \<^verbatim>\<open>(-?(?:0|[1-9][0-9]*))(\.[0-9]+)?([eE][-+]?[0-9]+)?\<close>: the integer part, and the optional
  fraction and exponent, each with the rest of the text after it.
\<close>

definition match_integer :: "string \<Rightarrow> (string \<times> string) option" where
  "match_integer s =
     (let sign = (case s of [] \<Rightarrow> [] | c # _ \<Rightarrow> if c = CHR ''-'' then [c] else []);
          r = drop (length sign) s
      in case r of
           [] \<Rightarrow> None
         | d # r' \<Rightarrow>
             if d = CHR ''0'' then Some (sign @ [d], r')
             else if is_digit d then Some (sign @ takeWhile is_digit r, dropWhile is_digit r)
             else None)"

definition match_frac :: "string \<Rightarrow> string \<times> string" where
  "match_frac s =
     (case s of
        [] \<Rightarrow> ([], s)
      | c # r \<Rightarrow>
          if c = CHR ''.'' \<and> takeWhile is_digit r \<noteq> []
          then (c # takeWhile is_digit r, dropWhile is_digit r)
          else ([], s))"

definition match_exp :: "string \<Rightarrow> string \<times> string" where
  "match_exp s =
     (case s of
        [] \<Rightarrow> ([], s)
      | c # r \<Rightarrow>
          if c = CHR ''e'' \<or> c = CHR ''E'' then
            (let sign = (case r of [] \<Rightarrow> []
                         | d # _ \<Rightarrow> if d = CHR ''-'' \<or> d = CHR ''+'' then [d] else []);
                 r' = drop (length sign) r
             in if takeWhile is_digit r' \<noteq> []
                then (c # sign @ takeWhile is_digit r', dropWhile is_digit r')
                else ([], s))
          else ([], s))"

text \<open>\<^verbatim>\<open>int(integer)\<close> on the text of an integer part.\<close>

definition nat_of_digits :: "string \<Rightarrow> nat" where
  "nat_of_digits ds = foldl (\<lambda>n d. 10 * n + (of_char d - 48)) 0 ds"

definition py_int :: "string \<Rightarrow> int" where
  "py_int s =
     (case s of
        [] \<Rightarrow> 0
      | c # ds \<Rightarrow> if c = CHR ''-'' then - int (nat_of_digits ds) else int (nat_of_digits s))"

definition match_number :: "string \<Rightarrow> (pyobject \<times> string) option" where
  "match_number s =
     (case match_integer s of
        None \<Rightarrow> None
      | Some (integer, r) \<Rightarrow>
          (let (frac, r1) = match_frac r; (exp, r2) = match_exp r1
           in if frac \<noteq> [] \<or> exp \<noteq> []
              then Some (PyFloat (integer @ frac @ exp), r2)
              else Some (PyInt (py_int integer), r2)))"

text \<open>\<^verbatim>\<open>s[idx:idx + len(lit)] == lit\<close>.\<close>

definition starts_with :: "string \<Rightarrow> string \<Rightarrow> bool" where
  "starts_with lit s = (take (length lit) s = lit)"

text \<open>
  \<^verbatim>\<open>dict(pairs)\<close>: a key that comes again keeps its place and takes the later value.
\<close>

definition dict_of_pairs :: "(string \<times> pyobject) list \<Rightarrow> (string \<times> pyobject) list" where
  "dict_of_pairs pairs = foldl (\<lambda>d (k, v). AList.update k v d) [] pairs"

text \<open>
  \<^verbatim>\<open>scan_once\<close>, \<^verbatim>\<open>JSONArray\<close> and \<^verbatim>\<open>JSONObject\<close> call each other; the first argument bounds
  the number of nested calls and of loop rounds. \<open>json_loads\<close> starts with the length of the
  text, which is never used up (lemma \<open>json_loads_fuel\<close>): each value that is entered and each
  further element or member takes at least one character. The recursion limit of the
  interpreter, which makes the real decoder raise \<^verbatim>\<open>RecursionError\<close> on text nested some
  thousand levels deep, is not modelled. \<open>JSONArray\<close> is entered at the first element
  and \<open>JSONObject\<close> at the quote of the first key, with the values read so far.
\<close>

fun scan_once :: "nat \<Rightarrow> string \<Rightarrow> (pyobject \<times> string) option"
  and JSONArray :: "nat \<Rightarrow> string \<Rightarrow> pyobject list \<Rightarrow> (pyobject \<times> string) option"
  and JSONObject :: "nat \<Rightarrow> string \<Rightarrow> (string \<times> pyobject) list \<Rightarrow> (pyobject \<times> string) option"
where
  "scan_once n [] = None"
| "scan_once 0 (c # s) = None"
| "scan_once (Suc n) (c # s) =
     (if c = DQUOTE then
        (case scanstring s of None \<Rightarrow> None | Some (str, r) \<Rightarrow> Some (PyStr str, r))
      else if c = CHR ''{'' then
        (case skip_ws s of
           [] \<Rightarrow> None
         | d # r \<Rightarrow> if d = CHR ''}'' then Some (PyDict [], r) else JSONObject n (d # r) [])
      else if c = CHR ''['' then
        (case skip_ws s of
           [] \<Rightarrow> None
         | d # r \<Rightarrow> if d = CHR '']'' then Some (PyList [], r) else JSONArray n (d # r) [])
      else if starts_with ''null'' (c # s) then Some (PyNone, drop 4 (c # s))
      else if starts_with ''true'' (c # s) then Some (PyBool True, drop 4 (c # s))
      else if starts_with ''false'' (c # s) then Some (PyBool False, drop 5 (c # s))
      else
        (case match_number (c # s) of
           Some res \<Rightarrow> Some res
         | None \<Rightarrow>
             if starts_with ''NaN'' (c # s) then Some (PyFloat ''NaN'', drop 3 (c # s))
             else if starts_with ''Infinity'' (c # s)
               then Some (PyFloat ''Infinity'', drop 8 (c # s))
             else if starts_with ''-Infinity'' (c # s)
               then Some (PyFloat ''-Infinity'', drop 9 (c # s))
             else None))"
| "JSONArray n s values =
     (case scan_once n s of
        None \<Rightarrow> None
      | Some (v, r) \<Rightarrow>
          (case skip_ws r of
             [] \<Rightarrow> None
           | d # r' \<Rightarrow>
               if d = CHR '']'' then Some (PyList (values @ [v]), r')
               else if d = CHR '','' then
                 (case n of 0 \<Rightarrow> None | Suc m \<Rightarrow> JSONArray m (skip_ws r') (values @ [v]))
               else None))"
| "JSONObject n s pairs =
     (case s of
        [] \<Rightarrow> None
      | q # s1 \<Rightarrow>
          if q \<noteq> DQUOTE then None
          else
            (case scanstring s1 of
               None \<Rightarrow> None
             | Some (k, r) \<Rightarrow>
                 (case skip_ws r of
                    [] \<Rightarrow> None
                  | colon # r1 \<Rightarrow>
                      if colon \<noteq> CHR '':'' then None
                      else
                        (case scan_once n (skip_ws r1) of
                           None \<Rightarrow> None
                         | Some (v, r2) \<Rightarrow>
                             (case skip_ws r2 of
                                [] \<Rightarrow> None
                              | d # r3 \<Rightarrow>
                                  if d = CHR ''}''
                                    then Some (PyDict (dict_of_pairs (pairs @ [(k, v)])), r3)
                                  else if d = CHR '','' then
                                    (case n of
                                       0 \<Rightarrow> None
                                     | Suc m \<Rightarrow> JSONObject m (skip_ws r3) (pairs @ [(k, v)]))
                                  else None)))))"

text \<open>
  \<^verbatim>\<open>json.loads(s)\<close>: white space, one value, white space, and nothing else; anything else
  raises \<^verbatim>\<open>JSONDecodeError\<close>, which carries the document \<open>s\<close>.
\<close>

definition json_loads :: "string \<Rightarrow> error + pyobject" where
  "json_loads s =
     (case scan_once (length s) (skip_ws s) of
        None \<Rightarrow> Inl (JSONDecodeError s)
      | Some (obj, r) \<Rightarrow> if skip_ws r = [] then Inr obj else Inl (JSONDecodeError s))"

text \<open>A result of the decoder leaves less text than the decoder was given.\<close>

definition shorter :: "string \<Rightarrow> ('a \<times> string) option \<Rightarrow> bool" where
  "shorter s res = (case res of None \<Rightarrow> True | Some (v, r) \<Rightarrow> length r < length s)"

section \<open>The function \<^verbatim>\<open>load_dataset\<close>\<close>

text \<open>
  \<^verbatim>\<open>
  def load_dataset(path: str):
      path = Path(path)
      if not path.exists():
          raise FileNotFoundError(f"File not found: {path}")
      with open(path, "r") as fid:
          data = [json.loads(line) for line in fid]
      return Dataset(data)
  \<close>
  The file system maps a path to what is there: nothing, a directory, or a file with its
  text. What the function does to the file system is the list of its calls, in order:
  \<^verbatim>\<open>path.exists()\<close>, \<^verbatim>\<open>open\<close>, and the close at the end of the \<^verbatim>\<open>with\<close> block (also when
  an exception leaves the block).
\<close>

datatype node = File string | Dir

type_synonym filesystem = "string \<Rightarrow> node option"

datatype fs_call = Exists string | Open string | Close string

definition exists :: "filesystem \<Rightarrow> string \<Rightarrow> bool" where
  "exists fs path = (fs path \<noteq> None)"

text \<open>
  A file opened in text mode translates \<^verbatim>\<open>\r\n\<close> and \<^verbatim>\<open>\r\<close> to \<^verbatim>\<open>\n\<close>; iterating over it
  gives the lines, each with its line feed, and a last line without one if the text does not
  end in a line feed.
\<close>

fun universal_newlines :: "string \<Rightarrow> string" where
  "universal_newlines [] = []"
| "universal_newlines [c] = (if c = CR then [LF] else [c])"
| "universal_newlines (c # d # s) =
     (if c = CR \<and> d = LF then LF # universal_newlines s
      else if c = CR then LF # universal_newlines (d # s)
      else c # universal_newlines (d # s))"

fun split_lines :: "string \<Rightarrow> string \<Rightarrow> string list" where
  "split_lines cur [] = (if cur = [] then [] else [cur])"
| "split_lines cur (c # s) =
     (if c = LF then (cur @ [c]) # split_lines [] s else split_lines (cur @ [c]) s)"

definition file_lines :: "string \<Rightarrow> string list" where
  "file_lines text = split_lines [] (universal_newlines text)"

text \<open>
  The list comprehension: the lines are decoded in order, and the first exception leaves
  the comprehension with no list.
\<close>

fun loads_all :: "string list \<Rightarrow> error + pyobject list" where
  "loads_all [] = Inr []"
| "loads_all (line # lines) =
     (case json_loads line of
        Inl e \<Rightarrow> Inl e
      | Inr v \<Rightarrow> (case loads_all lines of Inl e \<Rightarrow> Inl e | Inr vs \<Rightarrow> Inr (v # vs)))"

definition load_dataset :: "filesystem \<Rightarrow> string \<Rightarrow> fs_call list \<times> (error + Dataset)" where
  "load_dataset fs path =
     (if \<not> exists fs path then ([Exists path], Inl (FileNotFoundError path))
      else
        (case fs path of
           Some (File text) \<Rightarrow>
             ([Exists path, Open path, Close path],
              (case loads_all (file_lines text) of
                 Inl e \<Rightarrow> Inl e
               | Inr d \<Rightarrow> Inr (Dataset_init d ''text'')))
         | _ \<Rightarrow> ([Exists path, Open path], Inl (IsADirectoryError path))))"

section \<open>The module tree\<close>

text \<open>
  The model that \<^verbatim>\<open>modify_model_with_lora\<close> changes is a tree of objects of the MLX library:
  modules (\<^verbatim>\<open>nn.Module\<close>) with named attributes, Python lists of modules (the layers, the
  experts), and arrays, the parameters. An array carries what it holds, of any type \<open>'a\<close>,
  and whether it is trainable: the library keeps, in each module, the names of its frozen
  parameters, which is one flag for each array. A wrapper made by \<^verbatim>\<open>LoRALinear.from_linear\<close>
  holds the module it wraps, \<open>r\<close> and \<open>alpha\<close>, and one flag for its own low-rank pair
  \<^verbatim>\<open>lora_a\<close>, \<^verbatim>\<open>lora_b\<close>, whose values are drawn at random and are not modelled.

  The code mutates the tree in place and no object occurs twice in it; the functions below
  return the new tree.
\<close>

datatype 'a module =
    Param 'a bool
  | Module "(string \<times> 'a module) list"
  | ModuleList "'a module list"
  | LoRALinear "'a module" int int bool

text \<open>
  Attributes by name. The names this program asks for (\<^verbatim>\<open>model\<close>, \<^verbatim>\<open>layers\<close>, \<^verbatim>\<open>self_attn\<close>,
  \<^verbatim>\<open>block_sparse_moe\<close>, \<^verbatim>\<open>experts\<close> and the seven projection names) and \<^verbatim>\<open>weight\<close> are
  attributes of a module only when they were set on it: no list, array or wrapper has them
  by itself. In a module with two entries of one name the first one counts.
\<close>

fun attr :: "'a module \<Rightarrow> string \<Rightarrow> 'a module option" where
  "attr (Module attrs) name = map_of attrs name"
| "attr _ name = None"

definition hasattr :: "'a module \<Rightarrow> string \<Rightarrow> bool" where
  "hasattr obj name = (attr obj name \<noteq> None)"

definition getattr :: "'a module \<Rightarrow> string \<Rightarrow> error + 'a module" where
  "getattr obj name =
     (case attr obj name of None \<Rightarrow> Inl (AttributeError name) | Some v \<Rightarrow> Inr v)"

fun setattr :: "'a module \<Rightarrow> string \<Rightarrow> 'a module \<Rightarrow> error + 'a module" where
  "setattr (Module attrs) name v = Inr (Module (AList.update name v attrs))"
| "setattr _ name v = Inl (AttributeError name)"

text \<open>
  \<^verbatim>\<open>model.freeze()\<close> of the library marks every parameter of the module and of all modules
  below it as not trainable.
\<close>

primrec freeze :: "'a module \<Rightarrow> 'a module" where
  "freeze (Param w trainable) = Param w False"
| "freeze (Module attrs) = Module (map (map_prod id freeze) attrs)"
| "freeze (ModuleList ms) = ModuleList (map freeze ms)"
| "freeze (LoRALinear lin r alpha trainable) = LoRALinear (freeze lin) r alpha False"

text \<open>
  \<^verbatim>\<open>LoRALinear.from_linear(linear, r, alpha)\<close> of the library reads \<^verbatim>\<open>linear.weight.shape\<close> and
  returns a new wrapper around \<open>linear\<close>, with a trainable low-rank pair. It raises
  \<^verbatim>\<open>AttributeError\<close> on an object without a weight array, which a wrapper is, too.
\<close>

definition is_linear :: "'a module \<Rightarrow> bool" where
  "is_linear lin = (case attr lin ''weight'' of Some (Param w t) \<Rightarrow> True | _ \<Rightarrow> False)"

definition from_linear :: "'a module \<Rightarrow> int \<Rightarrow> int \<Rightarrow> error + 'a module" where
  "from_linear lin r alpha =
     (if is_linear lin then Inr (LoRALinear lin r alpha True)
      else Inl (AttributeError ''weight''))"

section \<open>The function \<^verbatim>\<open>modify_model_with_lora\<close>\<close>

text \<open>
  \<^verbatim>\<open>
  def modify_model_with_lora(model):
      model.freeze()
      for l in model.model.layers:
          projections = [
              "q_proj", "k_proj", "v_proj", "o_proj",
              "gate_proj", "up_proj", "down_proj"
          ]
          for proj in projections[:4]:
              if hasattr(l.self_attn, proj):
                  setattr(l.self_attn, proj, LoRALinear.from_linear(
                      getattr(l.self_attn, proj), r=64, alpha=128
                  ))
          if hasattr(l, "block_sparse_moe"):
              for proj in projections[4:]:
                  if hasattr(l.block_sparse_moe, proj):
                      setattr(l.block_sparse_moe, proj, LoRALinear.from_linear(
                          getattr(l.block_sparse_moe, proj), r=64, alpha=128
                      ))
              for e in l.block_sparse_moe.experts:
                  for proj in projections:
                      if hasattr(e, proj):
                          setattr(e, proj, LoRALinear.from_linear(
                              getattr(e, proj), r=64, alpha=128
                          ))
  \<close>
\<close>

definition projections :: "string list" where
  "projections =
     [''q_proj'', ''k_proj'', ''v_proj'', ''o_proj'', ''gate_proj'', ''up_proj'', ''down_proj'']"

text \<open>
  The loop that the code writes three times: for each name in turn, if the object has the
  attribute, the attribute becomes the wrapper of its value.
\<close>

fun replace_projections :: "string list \<Rightarrow> 'a module \<Rightarrow> error + 'a module" where
  "replace_projections [] obj = Inr obj"
| "replace_projections (proj # projs) obj =
     (if hasattr obj proj then
        (case getattr obj proj of
           Inl e \<Rightarrow> Inl e
         | Inr lin \<Rightarrow>
             (case from_linear lin 64 128 of
                Inl e \<Rightarrow> Inl e
              | Inr lora \<Rightarrow>
                  (case setattr obj proj lora of
                     Inl e \<Rightarrow> Inl e
                   | Inr obj' \<Rightarrow> replace_projections projs obj')))
      else replace_projections projs obj)"

text \<open>
  A statement that changes the object \<^verbatim>\<open>obj.name\<close> in place: in the tree, the attribute takes
  the changed object. \<^verbatim>\<open>obj.name\<close> raises \<^verbatim>\<open>AttributeError\<close> when there is no such attribute.
\<close>

definition in_attr ::
  "'a module \<Rightarrow> string \<Rightarrow> ('a module \<Rightarrow> error + 'a module) \<Rightarrow> error + 'a module" where
  "in_attr obj name f =
     (case getattr obj name of
        Inl e \<Rightarrow> Inl e
      | Inr child \<Rightarrow> (case f child of Inl e \<Rightarrow> Inl e | Inr child' \<Rightarrow> setattr obj name child'))"

text \<open>
  A \<^verbatim>\<open>for\<close> loop whose body changes each element of a list in place; the first exception
  ends it. The layers and the experts are Python lists in the library's models; on anything
  else the loop is modelled as a \<^verbatim>\<open>TypeError\<close>.
\<close>

fun for_each :: "('a module \<Rightarrow> error + 'a module) \<Rightarrow> 'a module list \<Rightarrow> error + 'a module list" where
  "for_each f [] = Inr []"
| "for_each f (m # ms) =
     (case f m of
        Inl e \<Rightarrow> Inl e
      | Inr m' \<Rightarrow> (case for_each f ms of Inl e \<Rightarrow> Inl e | Inr ms' \<Rightarrow> Inr (m' # ms')))"

fun for_in :: "('a module \<Rightarrow> error + 'a module) \<Rightarrow> 'a module \<Rightarrow> error + 'a module" where
  "for_in f (ModuleList ms) =
     (case for_each f ms of Inl e \<Rightarrow> Inl e | Inr ms' \<Rightarrow> Inr (ModuleList ms'))"
| "for_in f _ = Inl TypeError"

text \<open>The body of the loop over the layers.\<close>

definition modify_moe :: "'a module \<Rightarrow> error + 'a module" where
  "modify_moe moe =
     (case replace_projections (drop 4 projections) moe of
        Inl e \<Rightarrow> Inl e
      | Inr moe' \<Rightarrow> in_attr moe' ''experts'' (for_in (replace_projections projections)))"

definition modify_layer :: "'a module \<Rightarrow> error + 'a module" where
  "modify_layer l =
     (case in_attr l ''self_attn'' (replace_projections (take 4 projections)) of
        Inl e \<Rightarrow> Inl e
      | Inr l' \<Rightarrow>
          if hasattr l' ''block_sparse_moe'' then in_attr l' ''block_sparse_moe'' modify_moe
          else Inr l')"

text \<open>
  Only a module has the method \<^verbatim>\<open>freeze\<close>. The function returns nothing; its result here is
  the tree after the call.
\<close>

fun is_module :: "'a module \<Rightarrow> bool" where
  "is_module (Module attrs) = True"
| "is_module (LoRALinear lin r alpha trainable) = True"
| "is_module _ = False"

definition modify_model_with_lora :: "'a module \<Rightarrow> error + 'a module" where
  "modify_model_with_lora model =
     (if \<not> is_module model then Inl (AttributeError ''freeze'')
      else in_attr (freeze model) ''model''
             (\<lambda>inner. in_attr inner ''layers'' (for_in modify_layer)))"

text \<open>
  Three counts over a tree: the wrappers in it, the arrays marked trainable, and the
  wrappers whose low-rank pair is trainable.
\<close>

fun count_lora :: "'a module \<Rightarrow> nat" where
  "count_lora (Param w trainable) = 0"
| "count_lora (Module attrs) = sum_list (map (\<lambda>(name, v). count_lora v) attrs)"
| "count_lora (ModuleList ms) = sum_list (map count_lora ms)"
| "count_lora (LoRALinear lin r alpha trainable) = Suc (count_lora lin)"

fun trainable_arrays :: "'a module \<Rightarrow> nat" where
  "trainable_arrays (Param w trainable) = (if trainable then 1 else 0)"
| "trainable_arrays (Module attrs) = sum_list (map (\<lambda>(name, v). trainable_arrays v) attrs)"
| "trainable_arrays (ModuleList ms) = sum_list (map trainable_arrays ms)"
| "trainable_arrays (LoRALinear lin r alpha trainable) = trainable_arrays lin"

fun trainable_adapters :: "'a module \<Rightarrow> nat" where
  "trainable_adapters (Param w trainable) = 0"
| "trainable_adapters (Module attrs) = sum_list (map (\<lambda>(name, v). trainable_adapters v) attrs)"
| "trainable_adapters (ModuleList ms) = sum_list (map trainable_adapters ms)"
| "trainable_adapters (LoRALinear lin r alpha trainable) =
     (if trainable then 1 else 0) + trainable_adapters lin"

text \<open>
  All three counts add up over the attributes of a module and over the elements of a
  list; \<open>additive\<close> says this of a count, and \<open>wrapper_adds mu d\<close> that a new
  wrapper counts \<open>d\<close> more than the module it wraps.
\<close>

definition additive :: "('a module \<Rightarrow> nat) \<Rightarrow> bool" where
  "additive mu =
     ((\<forall>attrs. mu (Module attrs) = sum_list (map (\<lambda>(name, v). mu v) attrs)) \<and>
      (\<forall>ms. mu (ModuleList ms) = sum_list (map mu ms)))"

definition wrapper_adds :: "('a module \<Rightarrow> nat) \<Rightarrow> nat \<Rightarrow> bool" where
  "wrapper_adds mu d = (\<forall>lin. mu (LoRALinear lin 64 128 True) = mu lin + d)"

text \<open>
  The shape of the trees the code is written for. The number of the given names that an
  object has; that each of them it has is a linear module; and, of a layer: it has an
  attention block whose projections are linear modules, and if it has a mixture-of-experts
  block, the projections of the block are linear modules and its experts are a list of
  objects whose projections are linear modules. \<open>layer_injections\<close> counts the projections
  of a layer that the code looks at and finds.
\<close>

definition present :: "'a module \<Rightarrow> string list \<Rightarrow> nat" where
  "present obj names = length (filter (hasattr obj) names)"

definition linear_where_present :: "string list \<Rightarrow> 'a module \<Rightarrow> bool" where
  "linear_where_present names obj =
     list_all (\<lambda>n. case attr obj n of None \<Rightarrow> True | Some lin \<Rightarrow> is_linear lin) names"

definition well_formed_moe :: "'a module \<Rightarrow> bool" where
  "well_formed_moe moe =
     (linear_where_present (drop 4 projections) moe \<and>
      (case attr moe ''experts'' of
         Some (ModuleList es) \<Rightarrow> list_all (linear_where_present projections) es
       | _ \<Rightarrow> False))"

definition well_formed_layer :: "'a module \<Rightarrow> bool" where
  "well_formed_layer l =
     (case attr l ''self_attn'' of
        None \<Rightarrow> False
      | Some sa \<Rightarrow>
          linear_where_present (take 4 projections) sa \<and>
          (case attr l ''block_sparse_moe'' of None \<Rightarrow> True | Some moe \<Rightarrow> well_formed_moe moe))"

definition moe_injections :: "'a module \<Rightarrow> nat" where
  "moe_injections moe =
     present moe (drop 4 projections) +
     (case attr moe ''experts'' of
        Some (ModuleList es) \<Rightarrow> sum_list (map (\<lambda>e. present e projections) es)
      | _ \<Rightarrow> 0)"

definition layer_injections :: "'a module \<Rightarrow> nat" where
  "layer_injections l =
     (case attr l ''self_attn'' of None \<Rightarrow> 0 | Some sa \<Rightarrow> present sa (take 4 projections)) +
     (case attr l ''block_sparse_moe'' of None \<Rightarrow> 0 | Some moe \<Rightarrow> moe_injections moe)"

text \<open>
  What the replacement loop over \<open>names\<close> leaves under the attribute \<open>n\<close> of an object: the
  wrapper of the old value, with \<open>r = 64\<close> and \<open>alpha = 128\<close>, if \<open>n\<close> is one of the names
  and the object had it; otherwise what was there before, or nothing.
\<close>

definition wrapped_attr :: "string list \<Rightarrow> 'a module \<Rightarrow> 'a module \<Rightarrow> string \<Rightarrow> bool" where
  "wrapped_attr names obj obj' n =
     (attr obj' n =
        (if n \<in> set names
         then map_option (\<lambda>lin. LoRALinear lin 64 128 True) (attr obj n)
         else attr obj n))"

text \<open>
  A layer that exposes all four attention projections, each a linear module, and has no
  mixture-of-experts block.
\<close>

definition attention_only_layer :: "'a module \<Rightarrow> bool" where
  "attention_only_layer l =
     (attr l ''block_sparse_moe'' = None \<and>
      (case attr l ''self_attn'' of
         None \<Rightarrow> False
       | Some sa \<Rightarrow>
           list_all (\<lambda>n. case attr sa n of None \<Rightarrow> False | Some lin \<Rightarrow> is_linear lin)
             (take 4 projections)))"

text \<open>
  Three small models for the examples; the number in an array tells the arrays apart. The
  dense model has two layers with all four attention projections and a feed-forward block
  \<^verbatim>\<open>mlp\<close>; the second model has a dense layer and a layer whose attention block has \<^verbatim>\<open>q_proj\<close> and
  \<^verbatim>\<open>v_proj\<close> only; the third has one layer with a mixture-of-experts block of two experts.
\<close>

definition linear :: "nat \<Rightarrow> nat module" where
  "linear w = Module [(''weight'', Param w True)]"

definition attention :: "nat \<Rightarrow> nat module" where
  "attention k =
     Module [(''q_proj'', linear (k + 1)), (''k_proj'', linear (k + 2)),
             (''v_proj'', linear (k + 3)), (''o_proj'', linear (k + 4)),
             (''rope'', Module [])]"

definition dense_layer :: "nat \<Rightarrow> nat module" where
  "dense_layer k =
     Module [(''self_attn'', attention k),
             (''mlp'', Module [(''gate_proj'', linear (k + 5)), (''down_proj'', linear (k + 6)),
                               (''up_proj'', linear (k + 7))]),
             (''input_layernorm'', Module [(''weight'', Param (k + 8) True)])]"

definition inner_of_layers :: "nat module list \<Rightarrow> nat module" where
  "inner_of_layers ls =
     Module [(''embed_tokens'', Module [(''weight'', Param 0 True)]),
             (''layers'', ModuleList ls),
             (''norm'', Module [(''weight'', Param 1 True)])]"

definition model_of_layers :: "nat module list \<Rightarrow> nat module" where
  "model_of_layers ls = Module [(''model'', inner_of_layers ls), (''lm_head'', linear 2)]"

definition dense_model :: "nat module" where
  "dense_model = model_of_layers [dense_layer 10, dense_layer 20]"

definition partial_attention :: "nat module" where
  "partial_attention =
     Module [(''q_proj'', linear 11), (''v_proj'', linear 13), (''out_proj'', linear 14)]"

definition partial_layer :: "nat module" where
  "partial_layer =
     Module [(''self_attn'', partial_attention),
             (''input_layernorm'', Module [(''weight'', Param 18 True)])]"

definition partial_model :: "nat module" where
  "partial_model = model_of_layers [dense_layer 20, partial_layer]"

definition expert :: "nat \<Rightarrow> nat module" where
  "expert k =
     Module [(''gate_proj'', linear (k + 1)), (''up_proj'', linear (k + 2)),
             (''down_proj'', linear (k + 3)), (''act'', Module [])]"

definition moe_block :: "nat module" where
  "moe_block =
     Module [(''gate_proj'', linear 30), (''router'', linear 31),
             (''experts'', ModuleList [expert 40, expert 50])]"

definition moe_layer :: "nat module" where
  "moe_layer = Module [(''self_attn'', attention 10), (''block_sparse_moe'', moe_block)]"

definition moe_model :: "nat module" where
  "moe_model = model_of_layers [moe_layer]"

section \<open>The function \<^verbatim>\<open>train_model\<close>\<close>

text \<open>
  \<^verbatim>\<open>
  def train_model(model, tokenizer, train_dst, valid_dst):
      trainingArgs = TrainingArgs(
          batch_size=1,
          iters=5000,
          val_batches=25,
          steps_per_report=10,
          steps_per_eval=200,
          steps_per_save=200,
          adapter_file="adapters.npz",
          max_seq_length=4096,
      )
      decay_steps = trainingArgs.iters
      lr_schedule = optim.cosine_decay(1e-5, decay_steps)
      opt = optim.AdamW(learning_rate=lr_schedule)

      train(model=model,
            tokenizer=tokenizer,
            args=trainingArgs,
            optimizer=opt,
            train_dataset=train_dst,
            val_dataset=valid_dst)
  \<close>
  \<^verbatim>\<open>TrainingArgs\<close>, \<^verbatim>\<open>cosine_decay\<close>, \<^verbatim>\<open>AdamW\<close> and \<^verbatim>\<open>train\<close> belong to the library. The first three
  build values, kept here as they are written: the record of the arguments given (the other
  fields of \<^verbatim>\<open>TrainingArgs\<close> keep the library's defaults), the schedule with its two arguments,
  the optimizer with its schedule. The float \<^verbatim>\<open>1e-5\<close> is kept as the literal, mantissa and
  decimal exponent. What \<^verbatim>\<open>train\<close> does is the library's business; \<^verbatim>\<open>train_model\<close> does nothing
  but call it, and its result here is that call, with its keyword arguments.
\<close>

record TrainingArgs =
  batch_size :: int
  iters :: int
  val_batches :: int
  steps_per_report :: int
  steps_per_eval :: int
  steps_per_save :: int
  adapter_file :: string
  max_seq_length :: int

datatype float_literal = Scientific int int

datatype schedule = Cosine_decay float_literal int

datatype optimizer = AdamW schedule

record ('a, 't) train_call =
  kw_model :: "'a module"
  kw_tokenizer :: 't
  kw_args :: TrainingArgs
  kw_optimizer :: optimizer
  kw_train_dataset :: Dataset
  kw_val_dataset :: Dataset

definition train_model ::
  "'a module \<Rightarrow> 't \<Rightarrow> Dataset \<Rightarrow> Dataset \<Rightarrow> ('a, 't) train_call" where
  "train_model mdl tokenizer train_dst valid_dst =
     (let trainingArgs =
            \<lparr>batch_size = 1, iters = 5000, val_batches = 25, steps_per_report = 10,
             steps_per_eval = 200, steps_per_save = 200, adapter_file = ''adapters.npz'',
             max_seq_length = 4096\<rparr>;
          decay_steps = iters trainingArgs;
          lr_schedule = Cosine_decay (Scientific 1 (- 5)) decay_steps;
          opt = AdamW lr_schedule
      in \<lparr>kw_model = mdl, kw_tokenizer = tokenizer, kw_args = trainingArgs,
          kw_optimizer = opt, kw_train_dataset = train_dst, kw_val_dataset = valid_dst\<rparr>)"

section \<open>The input format, as the specification words it\<close>

text \<open>
  The specification calls an input file valid when it is line-delimited JSON with one record
  per non-empty line, each record an object that has the text field. The two predicates below
  say this of the text of a file; they are used to state properties only, the code does not
  compute them. The text of a line is the line without its line feed.
\<close>

definition line_text :: "string \<Rightarrow> string" where
  "line_text line = (if line \<noteq> [] \<and> last line = LF then butlast line else line)"

definition nonempty_line :: "string \<Rightarrow> bool" where
  "nonempty_line line = (line_text line \<noteq> [])"

definition is_text_record :: "string \<Rightarrow> bool" where
  "is_text_record line =
     (case json_loads line of
        Inr (PyDict kvs) \<Rightarrow> map_of kvs ''text'' \<noteq> None
      | _ \<Rightarrow> False)"

definition jsonl_valid :: "string \<Rightarrow> bool" where
  "jsonl_valid text = list_all is_text_record (filter nonempty_line (file_lines text))"

definition no_blank_line :: "string \<Rightarrow> bool" where
  "no_blank_line text = list_all nonempty_line (file_lines text)"

text \<open>The file system with one file, used in the examples.\<close>

definition one_file :: "string \<Rightarrow> string \<Rightarrow> filesystem" where
  "one_file name text = (\<lambda>p. if p = name then Some (File text) else None)"

text \<open>
  Four input files for the examples: the two records of the specification's scenario, the
  same two records with a blank line between them, a file with a line that is not JSON, and
  a file of JSON values that are not all records with a text field.
\<close>

definition two_records :: string where
  \<open>two_records = ''{"text":"a"}'' @ [LF] @ ''{"text":"b"}'' @ [LF]\<close>

definition blank_between :: string where
  \<open>blank_between = ''{"text":"a"}'' @ [LF] @ [LF] @ ''{"text":"b"}'' @ [LF]\<close>

definition one_malformed :: string where
  \<open>one_malformed = ''{"text":"a"}'' @ [LF] @ ''{oops'' @ [LF] @ ''{"text":"b"}'' @ [LF]\<close>

definition no_schema :: string where
  \<open>no_schema = ''{"label":3}'' @ [LF] @ ''42'' @ [LF] @ ''{"text":"b"}'' @ [LF]\<close>

section \<open>Properties of \<^verbatim>\<open>Dataset\<close>\<close>

lemma list_getitem_in_range:
  "0 \<le> i \<Longrightarrow> i < int (length xs) \<Longrightarrow> list_getitem xs i = Inr (xs ! nat i)"
  by (simp add: list_getitem_def)

lemma list_getitem_nat:
  "n < length xs \<Longrightarrow> list_getitem xs (int n) = Inr (xs ! n)"
  by (simp add: list_getitem_def)

lemma list_getitem_out_of_range:
  "int (length xs) \<le> i \<or> i < - int (length xs) \<Longrightarrow> list_getitem xs i = Inl IndexError"
  by (auto simp: list_getitem_def Let_def)

lemma list_getitem_Inr_range:
  "list_getitem xs i = Inr v \<Longrightarrow> - int (length xs) \<le> i \<and> i < int (length xs)"
  by (auto simp: list_getitem_def Let_def split: if_splits)

lemma list_getitem_negative:
  "i < 0 \<Longrightarrow> - int (length xs) \<le> i \<Longrightarrow> list_getitem xs i = list_getitem xs (i + int (length xs))"
  by (auto simp: list_getitem_def Let_def)

lemma subscript_not_IndexError: "subscript v k \<noteq> Inl IndexError"
  by (cases v) (auto split: option.splits)

lemma subscript_dict_Inr: "subscript (PyDict kvs) k = Inr v \<longleftrightarrow> map_of kvs k = Some v"
  by (simp split: option.splits)

lemma subscript_dict_Inl:
  "subscript (PyDict kvs) k = Inl e \<longleftrightarrow> k \<notin> fst ` set kvs \<and> e = KeyError k"
  by (auto simp: map_of_eq_None_iff [symmetric] split: option.splits)

text \<open>
  C3, as the specification states it, fails on the code: a negative index is in range for a
  Python list as long as it is not below \<open>-len\<close>. The accessor over the single record
  \<^verbatim>\<open>{"text": "a"}\<close> returns \<^verbatim>\<open>"a"\<close> at index \<open>-1\<close>.
\<close>

theorem getitem_negative_index_succeeds:
  "(- 1 :: int) < 0 \<and>
   getitem \<lparr>data = [PyDict [(''text'', PyStr ''a'')]], key = ''text''\<rparr> (- 1) = Inr (PyStr ''a'')"
  by (simp add: getitem_def list_getitem_def)

text \<open>
  C3, amended: \<open>get(i)\<close> raises \<^verbatim>\<open>IndexError\<close> for every index \<open>i \<ge> length\<close> or
  \<open>i < -length\<close>; an index \<open>-length \<le> i < 0\<close> reads the record \<open>i + length\<close>; and every
  successful access satisfies \<open>-length \<le> i < length\<close>.
\<close>

theorem getitem_index_range:
  "(int (len ds) \<le> i \<or> i < - int (len ds) \<longrightarrow> getitem ds i = Inl IndexError) \<and>
   (- int (len ds) \<le> i \<and> i < 0 \<longrightarrow> getitem ds i = getitem ds (i + int (len ds))) \<and>
   (\<forall>v. getitem ds i = Inr v \<longrightarrow> - int (len ds) \<le> i \<and> i < int (len ds))"
proof (intro conjI impI allI)
  assume "int (len ds) \<le> i \<or> i < - int (len ds)"
  then show "getitem ds i = Inl IndexError"
    by (simp add: getitem_def len_def list_getitem_out_of_range)
next
  assume "- int (len ds) \<le> i \<and> i < 0"
  then show "getitem ds i = getitem ds (i + int (len ds))"
    by (simp add: getitem_def len_def list_getitem_negative)
next
  fix v
  assume ok: "getitem ds i = Inr v"
  then obtain r where "list_getitem (data ds) i = Inr r"
    by (auto simp: getitem_def split: sum.splits)
  then have "- int (length (data ds)) \<le> i \<and> i < int (length (data ds))"
    by (rule list_getitem_Inr_range)
  then show "- int (len ds) \<le> i" and "i < int (len ds)"
    by (simp_all add: len_def)
qed

theorem getitem_index_range_witness:
  "(int (len \<lparr>data = [PyDict [(''text'', PyStr ''a'')]], key = ''text''\<rparr>) \<le> 1 \<or>
    (1 :: int) < - int (len \<lparr>data = [PyDict [(''text'', PyStr ''a'')]], key = ''text''\<rparr>)) \<and>
   getitem \<lparr>data = [PyDict [(''text'', PyStr ''a'')]], key = ''text''\<rparr> 1 = Inl IndexError"
  using getitem_index_range
    [of "\<lparr>data = [PyDict [(''text'', PyStr ''a'')]], key = ''text''\<rparr>" 1]
  by (simp add: len_def)

text \<open>
  C8: for an index \<open>0 \<le> i < length\<close>, \<open>get(i)\<close> is \<open>Record[i][key]\<close>; when record \<open>i\<close> is a
  mapping, it returns the value stored under the key, and it fails exactly when the record
  lacks the key, with \<^verbatim>\<open>KeyError\<close>.
\<close>

theorem getitem_returns_field:
  assumes "0 \<le> i" and "i < int (len ds)"
  shows "getitem ds i = subscript (data ds ! nat i) (key ds) \<and>
         (\<forall>kvs. data ds ! nat i = PyDict kvs \<longrightarrow>
            (\<forall>v. map_of kvs (key ds) = Some v \<longrightarrow> getitem ds i = Inr v) \<and>
            ((\<exists>e. getitem ds i = Inl e) \<longleftrightarrow> key ds \<notin> fst ` set kvs) \<and>
            (key ds \<notin> fst ` set kvs \<longrightarrow> getitem ds i = Inl (KeyError (key ds))))"
proof (intro conjI allI impI)
  show g: "getitem ds i = subscript (data ds ! nat i) (key ds)"
    using assms by (simp add: getitem_def len_def list_getitem_in_range)
  fix kvs
  assume d: "data ds ! nat i = PyDict kvs"
  show "getitem ds i = Inr v" if "map_of kvs (key ds) = Some v" for v
    using that unfolding g d subscript_dict_Inr .
  show "(\<exists>e. getitem ds i = Inl e) \<longleftrightarrow> key ds \<notin> fst ` set kvs"
    unfolding g d subscript_dict_Inl by simp
  show "getitem ds i = Inl (KeyError (key ds))" if "key ds \<notin> fst ` set kvs"
    using that unfolding g d subscript_dict_Inl by simp
qed

theorem getitem_returns_field_witness:
  "(0 :: int) \<le> 1 \<and>
   1 < int (len \<lparr>data = [PyDict [(''text'', PyStr ''a'')], PyDict [(''label'', PyInt 3)]],
                 key = ''text''\<rparr>) \<and>
   getitem \<lparr>data = [PyDict [(''text'', PyStr ''a'')], PyDict [(''label'', PyInt 3)]],
            key = ''text''\<rparr> 1 = Inl (KeyError ''text'')"
proof -
  let ?ds = "\<lparr>data = [PyDict [(''text'', PyStr ''a'')], PyDict [(''label'', PyInt 3)]],
              key = ''text''\<rparr>"
  have h1: "(0 :: int) \<le> 1" by simp
  have h2: "1 < int (len ?ds)" by (simp add: len_def)
  show ?thesis
    using h1 h2 getitem_returns_field [OF h1 h2] by simp
qed

section \<open>Properties of the decoder\<close>

text \<open>
  Every value the decoder reads takes at least one character, so the bound on nested calls
  and loop rounds that \<open>json_loads\<close> starts with, the length of the text, is never used up.
\<close>

lemma skip_ws_length: "length (skip_ws s) \<le> length s"
  by (simp add: skip_ws_def length_dropWhile_le)

lemma cons_chunk_Some:
  "cons_chunk chunk res = Some (str, r) \<longleftrightarrow> (\<exists>str'. res = Some (str', r) \<and> str = chunk @ str')"
  by (auto simp: cons_chunk_def)

lemma scanstring_step:
  assumes "scanstring (c # s) = Some (str, r)"
  shows "r = s \<or> (\<exists>t str'. length t \<le> length s \<and> scanstring t = Some (str', r))"
proof (cases "c = DQUOTE")
  case True
  with assms show ?thesis by simp
next
  case q: False
  show ?thesis
  proof (cases "c = BACKSLASH")
    case False
    with q assms have "\<exists>str'. scanstring s = Some (str', r)"
      by (auto simp: cons_chunk_Some split: if_splits)
    then show ?thesis by auto
  next
    case True
    with q assms obtain e s' where s: "s = e # s'"
      by (cases s) auto
    show ?thesis
    proof (cases "e = CHR ''u''")
      case False
      with q True s assms have "\<exists>str'. scanstring s' = Some (str', r)"
        by (auto simp: cons_chunk_Some split: option.splits)
      then obtain str' where "scanstring s' = Some (str', r)" ..
      moreover have "length s' \<le> length s"
        using s by simp
      ultimately show ?thesis by blast
    next
      case u: True
      with q True s assms have
        "(\<exists>str'. scanstring (drop 10 s') = Some (str', r)) \<or>
         (\<exists>str'. scanstring (drop 4 s') = Some (str', r))"
        by (auto simp: cons_chunk_Some split: option.splits if_splits)
      then obtain t str' where "t = drop 10 s' \<or> t = drop 4 s'" "scanstring t = Some (str', r)"
        by blast
      moreover from this(1) have "length t \<le> length s"
        using s by auto
      ultimately show ?thesis by blast
    qed
  qed
qed

lemma scanstring_shorter: "scanstring s = Some (str, r) \<Longrightarrow> length r < length s"
proof (induction s arbitrary: str rule: length_induct)
  case (1 s)
  from "1.prems" obtain c s' where s: "s = c # s'"
    by (cases s) auto
  from scanstring_step [OF "1.prems" [unfolded s]] show ?case
  proof
    assume "r = s'"
    with s show ?thesis by simp
  next
    assume "\<exists>t str'. length t \<le> length s' \<and> scanstring t = Some (str', r)"
    then obtain t str' where t: "length t \<le> length s'" "scanstring t = Some (str', r)"
      by blast
    with s have "length t < length s" by simp
    with "1.IH" t(2) have "length r < length t" by blast
    with t(1) s show ?thesis by simp
  qed
qed


lemma match_integer_shorter: "match_integer s = Some (i, r) \<Longrightarrow> length r < length s"
  by (auto simp: match_integer_def Let_def split: list.splits if_splits
      intro: le_less_trans [OF length_dropWhile_le])

lemma match_frac_length: "length (snd (match_frac s)) \<le> length s"
  by (auto simp: match_frac_def split: list.splits intro: le_trans [OF length_dropWhile_le])

lemma match_exp_length: "length (snd (match_exp s)) \<le> length s"
  by (auto simp: match_exp_def Let_def split: list.splits
      intro: le_trans [OF length_dropWhile_le])

lemma match_number_shorter: "match_number s = Some (v, r) \<Longrightarrow> length r < length s"
proof -
  assume a: "match_number s = Some (v, r)"
  then obtain i r0 where i: "match_integer s = Some (i, r0)"
    by (auto simp: match_number_def split: option.splits)
  with a have "r = snd (match_exp (snd (match_frac r0)))"
    by (auto simp: match_number_def Let_def split: prod.splits if_splits)
  then have "length r \<le> length r0"
    using match_exp_length [of "snd (match_frac r0)"] match_frac_length [of r0] by simp
  with match_integer_shorter [OF i] show ?thesis
    by simp
qed

lemma starts_with_drop: "starts_with lit s \<Longrightarrow> lit \<noteq> [] \<Longrightarrow> length (drop (length lit) s) < length s"
  by (cases s) (auto simp: starts_with_def)

lemma shorter_simps [simp]:
  "shorter s None"
  "shorter s (Some (v, r)) = (length r < length s)"
  by (simp_all add: shorter_def)

lemma shorter_mono: "shorter s res \<Longrightarrow> length s \<le> length s' \<Longrightarrow> shorter s' res"
  by (auto simp: shorter_def split: option.splits)

lemma scan_once_Suc_cases:
  "scan_once (Suc n) (c # s) =
     (case scanstring s of None \<Rightarrow> None | Some (str, r) \<Rightarrow> Some (PyStr str, r)) \<or>
   (c \<noteq> DQUOTE \<and> c = CHR ''{'' \<and>
    scan_once (Suc n) (c # s) =
     (case skip_ws s of [] \<Rightarrow> None
      | d # r \<Rightarrow> if d = CHR ''}'' then Some (PyDict [], r) else JSONObject n (d # r) [])) \<or>
   (c \<noteq> DQUOTE \<and> c \<noteq> CHR ''{'' \<and> c = CHR ''['' \<and>
    scan_once (Suc n) (c # s) =
     (case skip_ws s of [] \<Rightarrow> None
      | d # r \<Rightarrow> if d = CHR '']'' then Some (PyList [], r) else JSONArray n (d # r) [])) \<or>
   scan_once (Suc n) (c # s) = match_number (c # s) \<or>
   scan_once (Suc n) (c # s) = None \<or>
   (\<exists>v k. scan_once (Suc n) (c # s) = Some (v, drop k s))"
proof (cases "match_number (c # s)")
  case None
  then show ?thesis by (simp del: drop_Suc_Cons drop_eq_Nil) blast
next
  case (Some a)
  then show ?thesis by (simp del: drop_Suc_Cons drop_eq_Nil) blast
qed

lemma scan_once_Suc_shorter:
  assumes obj: "\<And>d r. \<lbrakk>c \<noteq> DQUOTE; c = CHR ''{''; skip_ws s = d # r; d \<noteq> CHR ''}''\<rbrakk>
      \<Longrightarrow> shorter (d # r) (JSONObject n (d # r) [])"
    and arr: "\<And>d r. \<lbrakk>c \<noteq> DQUOTE; c \<noteq> CHR ''{''; c = CHR ''[''; skip_ws s = d # r; d \<noteq> CHR '']''\<rbrakk>
      \<Longrightarrow> shorter (d # r) (JSONArray n (d # r) [])"
  shows "shorter (c # s) (scan_once (Suc n) (c # s))"
proof -
  have ws: "length (skip_ws s) \<le> length s"
    by (rule skip_ws_length)
  have str: "shorter (c # s) (case scanstring s of None \<Rightarrow> None | Some (str, r) \<Rightarrow> Some (PyStr str, r))"
    by (auto split: option.splits dest: scanstring_shorter)
  have o: "shorter (c # s) (case skip_ws s of [] \<Rightarrow> None
        | d # r \<Rightarrow> if d = CHR ''}'' then Some (PyDict [], r) else JSONObject n (d # r) [])"
    if "c \<noteq> DQUOTE" "c = CHR ''{''"
  proof (cases "skip_ws s")
    case Nil
    then show ?thesis by simp
  next
    case (Cons d r)
    with ws obj [OF that Cons] show ?thesis
      by (auto intro: shorter_mono)
  qed
  have a: "shorter (c # s) (case skip_ws s of [] \<Rightarrow> None
        | d # r \<Rightarrow> if d = CHR '']'' then Some (PyList [], r) else JSONArray n (d # r) [])"
    if "c \<noteq> DQUOTE" "c \<noteq> CHR ''{''" "c = CHR ''[''"
  proof (cases "skip_ws s")
    case Nil
    then show ?thesis by simp
  next
    case (Cons d r)
    with ws arr [OF that Cons] show ?thesis
      by (auto intro: shorter_mono)
  qed
  have num: "shorter (c # s) (match_number (c # s))"
    by (cases "match_number (c # s)") (auto dest: match_number_shorter)
  have lit: "shorter (c # s) (Some (v, drop k s))" for v :: pyobject and k
    by (simp add: le_imp_less_Suc)
  from scan_once_Suc_cases [of n c s] show ?thesis
  proof (elim disjE conjE exE)
    assume "scan_once (Suc n) (c # s) =
      (case scanstring s of None \<Rightarrow> None | Some (str, r) \<Rightarrow> Some (PyStr str, r))"
    with str show ?thesis by (simp only:)
  next
    assume c: "c \<noteq> DQUOTE" "c = CHR ''{''"
      and eq: "scan_once (Suc n) (c # s) =
        (case skip_ws s of [] \<Rightarrow> None
         | d # r \<Rightarrow> if d = CHR ''}'' then Some (PyDict [], r) else JSONObject n (d # r) [])"
    from o [OF c] show ?thesis unfolding eq .
  next
    assume c: "c \<noteq> DQUOTE" "c \<noteq> CHR ''{''" "c = CHR ''[''"
      and eq: "scan_once (Suc n) (c # s) =
        (case skip_ws s of [] \<Rightarrow> None
         | d # r \<Rightarrow> if d = CHR '']'' then Some (PyList [], r) else JSONArray n (d # r) [])"
    from a [OF c] show ?thesis unfolding eq .
  next
    assume "scan_once (Suc n) (c # s) = match_number (c # s)"
    with num show ?thesis by (simp only:)
  next
    assume "scan_once (Suc n) (c # s) = None"
    then show ?thesis by (simp only: shorter_simps)
  next
    fix v k
    assume "scan_once (Suc n) (c # s) = Some (v, drop k s)"
    with lit [of v k] show ?thesis by (simp only:)
  qed
qed

lemma JSONArray_shorter_step:
  assumes v: "shorter s (scan_once n s)"
    and rec: "\<And>x2 x y d r m. \<lbrakk>scan_once n s = Some x2; (x, y) = x2; skip_ws y = d # r;
        d \<noteq> CHR '']''; d = CHR '',''; n = Suc m\<rbrakk>
      \<Longrightarrow> shorter (skip_ws r) (JSONArray m (skip_ws r) (vs @ [x]))"
  shows "shorter s (JSONArray n s vs)"
proof (cases "scan_once n s")
  case None
  then show ?thesis by (subst JSONArray.simps) simp
next
  case (Some x2)
  obtain x y where x2: "x2 = (x, y)" by (cases x2)
  with v Some have ys: "length y < length s" by simp
  show ?thesis
  proof (cases "skip_ws y")
    case Nil
    with Some x2 show ?thesis by (subst JSONArray.simps) simp
  next
    case (Cons d r)
    have "length (skip_ws y) \<le> length y" by (rule skip_ws_length)
    with Cons ys have rs: "length r < length s" by simp
    have "length (skip_ws r) \<le> length r" by (rule skip_ws_length)
    with rs have rs': "length (skip_ws r) \<le> length s" by simp
    show ?thesis
    proof (cases "d = CHR '']''")
      case True
      with Some x2 Cons rs show ?thesis by (subst JSONArray.simps) simp
    next
      case nb: False
      show ?thesis
      proof (cases "d = CHR '',''")
        case False
        with Some x2 Cons nb show ?thesis by (subst JSONArray.simps) simp
      next
        case True
        show ?thesis
        proof (cases n)
          case 0
          with Some x2 Cons nb True show ?thesis by (subst JSONArray.simps) simp
        next
          case (Suc m)
          from rec [OF Some x2 [symmetric] Cons nb True Suc] rs'
          have "shorter s (JSONArray m (skip_ws r) (vs @ [x]))"
            by (rule shorter_mono)
          with Some x2 Cons nb True Suc show ?thesis
            by (subst JSONArray.simps) (simp del: JSONArray.simps)
        qed
      qed
    qed
  qed
qed


lemma JSONObject_shorter_step:
  assumes v: "\<And>q s1 x2 k y colon r1. \<lbrakk>s = q # s1; \<not> q \<noteq> DQUOTE; scanstring s1 = Some x2;
        (k, y) = x2; skip_ws y = colon # r1; \<not> colon \<noteq> CHR '':''\<rbrakk>
      \<Longrightarrow> shorter (skip_ws r1) (scan_once n (skip_ws r1))"
    and rec: "\<And>q s1 x2 k y colon r1 x2a x ya d r m. \<lbrakk>s = q # s1; \<not> q \<noteq> DQUOTE;
        scanstring s1 = Some x2; (k, y) = x2; skip_ws y = colon # r1; \<not> colon \<noteq> CHR '':'';
        scan_once n (skip_ws r1) = Some x2a; (x, ya) = x2a; skip_ws ya = d # r;
        d \<noteq> CHR ''}''; d = CHR '',''; n = Suc m\<rbrakk>
      \<Longrightarrow> shorter (skip_ws r) (JSONObject m (skip_ws r) (ps @ [(k, x)]))"
  shows "shorter s (JSONObject n s ps)"
proof (cases s)
  case Nil
  then show ?thesis by (subst JSONObject.simps) simp
next
  case (Cons q s1)
  show ?thesis
  proof (cases "q = DQUOTE")
    case False
    with Cons show ?thesis by (subst JSONObject.simps) simp
  next
    case q: True
    then have q': "\<not> q \<noteq> DQUOTE" by simp
    show ?thesis
    proof (cases "scanstring s1")
      case None
      with Cons q show ?thesis by (subst JSONObject.simps) simp
    next
      case (Some x2)
      obtain k y where x2: "x2 = (k, y)" by (cases x2)
      from Some x2 have "length y < length s1"
        by (auto dest: scanstring_shorter)
      with Cons have ys: "length y < length s" by simp
      show ?thesis
      proof (cases "skip_ws y")
        case Nil
        with Cons q Some x2 show ?thesis by (subst JSONObject.simps) simp
      next
        case c: (Cons colon r1)
        have "length (skip_ws y) \<le> length y" by (rule skip_ws_length)
        with c ys have r1s: "length r1 < length s" by simp
        have "length (skip_ws r1) \<le> length r1" by (rule skip_ws_length)
        with r1s have r1s': "length (skip_ws r1) < length s" by simp
        show ?thesis
        proof (cases "colon = CHR '':''")
          case False
          with Cons q Some x2 c show ?thesis by (subst JSONObject.simps) simp
        next
          case col: True
          then have col': "\<not> colon \<noteq> CHR '':''" by simp
          note sv = v [OF Cons q' Some x2 [symmetric] c col']
          show ?thesis
          proof (cases "scan_once n (skip_ws r1)")
            case None
            with Cons q Some x2 c col show ?thesis by (subst JSONObject.simps) simp
          next
            case v2: (Some x2a)
            obtain x ya where x2a: "x2a = (x, ya)" by (cases x2a)
            with sv v2 have "length ya < length (skip_ws r1)" by simp
            with r1s' have yas: "length ya < length s" by simp
            show ?thesis
            proof (cases "skip_ws ya")
              case Nil
              with Cons q Some x2 c col v2 x2a show ?thesis
                by (subst JSONObject.simps) simp
            next
              case d: (Cons d r)
              have "length (skip_ws ya) \<le> length ya" by (rule skip_ws_length)
              with d yas have rs: "length r < length s" by simp
              have "length (skip_ws r) \<le> length r" by (rule skip_ws_length)
              with rs have rs': "length (skip_ws r) \<le> length s" by simp
              show ?thesis
              proof (cases "d = CHR ''}''")
                case True
                with Cons q Some x2 c col v2 x2a d rs show ?thesis
                  by (subst JSONObject.simps) simp
              next
                case nb: False
                show ?thesis
                proof (cases "d = CHR '',''")
                  case False
                  with Cons q Some x2 c col v2 x2a d nb show ?thesis
                    by (subst JSONObject.simps) simp
                next
                  case True
                  show ?thesis
                  proof (cases n)
                    case 0
                    with Cons q Some x2 c col v2 x2a d nb True show ?thesis
                      by (subst JSONObject.simps) simp
                  next
                    case (Suc m)
                    from rec [OF Cons q' Some x2 [symmetric] c col' v2 x2a [symmetric] d nb True Suc] rs'
                    have "shorter s (JSONObject m (skip_ws r) (ps @ [(k, x)]))"
                      by (rule shorter_mono)
                    with Cons q Some x2 c col v2 x2a d nb True Suc show ?thesis
                      by (subst JSONObject.simps) (simp del: JSONObject.simps)
                  qed
                qed
              qed
            qed
          qed
        qed
      qed
    qed
  qed
qed

lemma scan_shorter:
  "shorter s (scan_once n s)"
  "shorter s (JSONArray n s vs)"
  "shorter s (JSONObject n s ps)"
proof (induction n s and n s vs and n s ps rule: scan_once_JSONArray_JSONObject.induct)
  case (1 n)
  then show ?case by simp
next
  case (2 c s)
  then show ?case by simp
next
  case (3 n c s)
  show ?case
    by (rule scan_once_Suc_shorter, rule "3.IH"(1), assumption+, rule "3.IH"(2))
next
  case (4 n s "values")
  show ?case
    by (rule JSONArray_shorter_step, rule "4.IH"(1), rule "4.IH"(2))
next
  case (5 n s pairs)
  show ?case
    by (rule JSONObject_shorter_step, rule "5.IH"(1), assumption+, rule "5.IH"(2))
qed

lemma scan_once_shorter: "scan_once n s = Some (v, r) \<Longrightarrow> length r < length s"
  using scan_shorter(1) [of s n] by simp


lemma scan_once_Suc_cong:
  assumes obj: "\<And>d r. \<lbrakk>c \<noteq> DQUOTE; c = CHR ''{''; skip_ws s = d # r; d \<noteq> CHR ''}''\<rbrakk>
      \<Longrightarrow> JSONObject n (d # r) [] = JSONObject m (d # r) []"
    and arr: "\<And>d r. \<lbrakk>c \<noteq> DQUOTE; c \<noteq> CHR ''{''; c = CHR ''[''; skip_ws s = d # r; d \<noteq> CHR '']''\<rbrakk>
      \<Longrightarrow> JSONArray n (d # r) [] = JSONArray m (d # r) []"
  shows "scan_once (Suc n) (c # s) = scan_once (Suc m) (c # s)"
proof (cases "c = DQUOTE")
  case True
  then show ?thesis by simp
next
  case q: False
  show ?thesis
  proof (cases "c = CHR ''{''")
    case True
    show ?thesis
    proof (cases "skip_ws s")
      case Nil
      with q True show ?thesis by simp
    next
      case (Cons d r)
      show ?thesis
      proof (cases "d = CHR ''}''")
        case c: True
        with q True Cons show ?thesis by simp
      next
        case False
        from obj [OF q True Cons False] q True Cons False show ?thesis
          by (simp del: JSONObject.simps)
      qed
    qed
  next
    case o: False
    show ?thesis
    proof (cases "c = CHR ''[''")
      case False
      with q o show ?thesis by simp
    next
      case True
      show ?thesis
      proof (cases "skip_ws s")
        case Nil
        with q o True show ?thesis by simp
      next
        case (Cons d r)
        show ?thesis
        proof (cases "d = CHR '']''")
          case c: True
          with q o True Cons show ?thesis by simp
        next
          case False
          from arr [OF q o True Cons False] q o True Cons False show ?thesis
            by (simp del: JSONArray.simps)
        qed
      qed
    qed
  qed
qed

lemma JSONArray_fuel_step:
  assumes le: "length s \<le> n"
    and v: "scan_once (Suc n) s = scan_once n s"
    and rec: "\<And>x2 x y d r m. \<lbrakk>scan_once n s = Some x2; (x, y) = x2; skip_ws y = d # r;
        d \<noteq> CHR '']''; d = CHR '',''; n = Suc m\<rbrakk>
      \<Longrightarrow> length (skip_ws r) \<le> m \<longrightarrow>
          JSONArray (Suc m) (skip_ws r) (vs @ [x]) = JSONArray m (skip_ws r) (vs @ [x])"
  shows "JSONArray (Suc n) s vs = JSONArray n s vs"
proof (cases "scan_once n s")
  case None
  with v show ?thesis
    by (subst (1 2) JSONArray.simps) simp
next
  case (Some x2)
  obtain x y where x2: "x2 = (x, y)" by (cases x2)
  from Some x2 have ys: "length y < length s"
    by (auto dest: scan_once_shorter)
  show ?thesis
  proof (cases "skip_ws y")
    case Nil
    with Some x2 v show ?thesis
      by (subst (1 2) JSONArray.simps) simp
  next
    case (Cons d r)
    have "length (skip_ws y) \<le> length y" by (rule skip_ws_length)
    with Cons ys have rs: "Suc (length r) < length s" by simp
    have "length (skip_ws r) \<le> length r" by (rule skip_ws_length)
    with rs have rs': "Suc (length (skip_ws r)) < length s" by simp
    show ?thesis
    proof (cases "d = CHR '']''")
      case True
      with Some x2 Cons v show ?thesis
        by (subst (1 2) JSONArray.simps) simp
    next
      case nb: False
      show ?thesis
      proof (cases "d = CHR '',''")
        case False
        with Some x2 Cons nb v show ?thesis
          by (subst (1 2) JSONArray.simps) simp
      next
        case True
        from le rs' obtain m where n: "n = Suc m"
          by (cases n) auto
        with le rs' have "length (skip_ws r) \<le> m"
          by simp
        with rec [OF Some x2 [symmetric] Cons nb True n]
        have "JSONArray (Suc m) (skip_ws r) (vs @ [x]) = JSONArray m (skip_ws r) (vs @ [x])"
          by simp
        with Some x2 Cons nb True n v show ?thesis
          by (subst (1 2) JSONArray.simps) (simp del: JSONArray.simps)
      qed
    qed
  qed
qed


lemma JSONObject_fuel_step:
  assumes le: "length s \<le> n"
    and v: "\<And>q s1 x2 k y colon r1. \<lbrakk>s = q # s1; \<not> q \<noteq> DQUOTE; scanstring s1 = Some x2;
        (k, y) = x2; skip_ws y = colon # r1; \<not> colon \<noteq> CHR '':''\<rbrakk>
      \<Longrightarrow> length (skip_ws r1) \<le> n \<longrightarrow>
          scan_once (Suc n) (skip_ws r1) = scan_once n (skip_ws r1)"
    and rec: "\<And>q s1 x2 k y colon r1 x2a x ya d r m. \<lbrakk>s = q # s1; \<not> q \<noteq> DQUOTE;
        scanstring s1 = Some x2; (k, y) = x2; skip_ws y = colon # r1; \<not> colon \<noteq> CHR '':'';
        scan_once n (skip_ws r1) = Some x2a; (x, ya) = x2a; skip_ws ya = d # r;
        d \<noteq> CHR ''}''; d = CHR '',''; n = Suc m\<rbrakk>
      \<Longrightarrow> length (skip_ws r) \<le> m \<longrightarrow>
          JSONObject (Suc m) (skip_ws r) (ps @ [(k, x)]) =
          JSONObject m (skip_ws r) (ps @ [(k, x)])"
  shows "JSONObject (Suc n) s ps = JSONObject n s ps"
proof (cases s)
  case Nil
  then show ?thesis by (subst (1 2) JSONObject.simps) simp
next
  case (Cons q s1)
  show ?thesis
  proof (cases "q = DQUOTE")
    case False
    with Cons show ?thesis by (subst (1 2) JSONObject.simps) simp
  next
    case q: True
    then have q': "\<not> q \<noteq> DQUOTE" by simp
    show ?thesis
    proof (cases "scanstring s1")
      case None
      with Cons q show ?thesis by (subst (1 2) JSONObject.simps) simp
    next
      case (Some x2)
      obtain k y where x2: "x2 = (k, y)" by (cases x2)
      from Some x2 have "length y < length s1"
        by (auto dest: scanstring_shorter)
      with Cons have ys: "Suc (length y) < length s" by simp
      show ?thesis
      proof (cases "skip_ws y")
        case Nil
        with Cons q Some x2 show ?thesis by (subst (1 2) JSONObject.simps) simp
      next
        case c: (Cons colon r1)
        have "length (skip_ws y) \<le> length y" by (rule skip_ws_length)
        with c ys have r1s: "length r1 < length s" by simp
        have "length (skip_ws r1) \<le> length r1" by (rule skip_ws_length)
        with r1s have r1s': "length (skip_ws r1) < length s" by simp
        show ?thesis
        proof (cases "colon = CHR '':''")
          case False
          with Cons q Some x2 c show ?thesis by (subst (1 2) JSONObject.simps) simp
        next
          case col: True
          then have col': "\<not> colon \<noteq> CHR '':''" by simp
          from v [OF Cons q' Some x2 [symmetric] c col'] r1s' le
          have sv: "scan_once (Suc n) (skip_ws r1) = scan_once n (skip_ws r1)"
            by simp
          show ?thesis
          proof (cases "scan_once n (skip_ws r1)")
            case None
            with Cons q Some x2 c col sv show ?thesis
              by (subst (1 2) JSONObject.simps) simp
          next
            case v2: (Some x2a)
            obtain x ya where x2a: "x2a = (x, ya)" by (cases x2a)
            with v2 have "length ya < length (skip_ws r1)"
              by (auto dest: scan_once_shorter)
            with r1s' have yas: "Suc (length ya) < length s" by simp
            show ?thesis
            proof (cases "skip_ws ya")
              case Nil
              with Cons q Some x2 c col v2 x2a sv show ?thesis
                by (subst (1 2) JSONObject.simps) simp
            next
              case d: (Cons d r)
              have "length (skip_ws ya) \<le> length ya" by (rule skip_ws_length)
              with d yas have rs: "Suc (length r) < length s" by simp
              have "length (skip_ws r) \<le> length r" by (rule skip_ws_length)
              with rs have rs': "Suc (length (skip_ws r)) < length s" by simp
              show ?thesis
              proof (cases "d = CHR ''}''")
                case True
                with Cons q Some x2 c col v2 x2a d sv show ?thesis
                  by (subst (1 2) JSONObject.simps) simp
              next
                case nb: False
                show ?thesis
                proof (cases "d = CHR '',''")
                  case False
                  with Cons q Some x2 c col v2 x2a d nb sv show ?thesis
                    by (subst (1 2) JSONObject.simps) simp
                next
                  case True
                  from le rs' obtain m where n: "n = Suc m"
                    by (cases n) auto
                  with le rs' have "length (skip_ws r) \<le> m"
                    by simp
                  with rec [OF Cons q' Some x2 [symmetric] c col' v2 x2a [symmetric] d nb True n]
                  have "JSONObject (Suc m) (skip_ws r) (ps @ [(k, x)]) =
                        JSONObject m (skip_ws r) (ps @ [(k, x)])"
                    by simp
                  with Cons q Some x2 c col v2 x2a d nb True n sv show ?thesis
                    by (subst (1 2) JSONObject.simps) (simp del: JSONObject.simps)
                qed
              qed
            qed
          qed
        qed
      qed
    qed
  qed
qed

lemma scan_fuel_Suc:
  "length s \<le> n \<longrightarrow> scan_once (Suc n) s = scan_once n s"
  "length s \<le> n \<longrightarrow> JSONArray (Suc n) s vs = JSONArray n s vs"
  "length s \<le> n \<longrightarrow> JSONObject (Suc n) s ps = JSONObject n s ps"
proof (induction n s and n s vs and n s ps rule: scan_once_JSONArray_JSONObject.induct)
  case (1 n)
  then show ?case by simp
next
  case (2 c s)
  then show ?case by simp
next
  case (3 n c s)
  show ?case
  proof
    assume le: "length (c # s) \<le> Suc n"
    have ws: "length (skip_ws s) \<le> length s"
      by (rule skip_ws_length)
    show "scan_once (Suc (Suc n)) (c # s) = scan_once (Suc n) (c # s)"
    proof (rule scan_once_Suc_cong)
      fix d r
      assume a: "c \<noteq> DQUOTE" "c = CHR ''{''" "skip_ws s = d # r" "d \<noteq> CHR ''}''"
      with le ws have "length (d # r) \<le> n" by simp
      with "3.IH"(1) [OF a] show "JSONObject (Suc n) (d # r) [] = JSONObject n (d # r) []"
        by blast
    next
      fix d r
      assume a: "c \<noteq> DQUOTE" "c \<noteq> CHR ''{''" "c = CHR ''[''" "skip_ws s = d # r" "d \<noteq> CHR '']''"
      with le ws have "length (d # r) \<le> n" by simp
      with "3.IH"(2) [OF a] show "JSONArray (Suc n) (d # r) [] = JSONArray n (d # r) []"
        by blast
    qed
  qed
next
  case (4 n s "values")
  show ?case
  proof
    assume le: "length s \<le> n"
    with "4.IH"(1) have v: "scan_once (Suc n) s = scan_once n s"
      by blast
    show "JSONArray (Suc n) s values = JSONArray n s values"
      by (rule JSONArray_fuel_step, rule le, rule v, rule "4.IH"(2))
  qed
next
  case (5 n s pairs)
  show ?case
  proof
    assume le: "length s \<le> n"
    show "JSONObject (Suc n) s pairs = JSONObject n s pairs"
      by (rule JSONObject_fuel_step, rule le, rule "5.IH"(1), assumption+, rule "5.IH"(2))
  qed
qed

lemma scan_once_fuel: "length s \<le> n \<Longrightarrow> scan_once n s = scan_once (length s) s"
proof (induction "n - length s" arbitrary: n)
  case 0
  then show ?case by simp
next
  case (Suc k)
  then obtain m where n: "n = Suc m" and m: "length s \<le> m" "k = m - length s"
    by (cases n) auto
  from scan_fuel_Suc(1) [of s m] m(1) have "scan_once (Suc m) s = scan_once m s"
    by blast
  with Suc.hyps(1) [OF m(2) m(1)] n show ?case
    by simp
qed

text \<open>
  The bound that \<open>json_loads\<close> gives the decoder is never the reason of a failure: any
  larger bound gives the same result.
\<close>

lemma json_loads_fuel:
  assumes "length s \<le> n"
  shows "json_loads s =
     (case scan_once n (skip_ws s) of
        None \<Rightarrow> Inl (JSONDecodeError s)
      | Some (obj, r) \<Rightarrow> if skip_ws r = [] then Inr obj else Inl (JSONDecodeError s))"
proof -
  have ws: "length (skip_ws s) \<le> length s"
    by (rule skip_ws_length)
  with assms have "scan_once n (skip_ws s) = scan_once (length (skip_ws s)) (skip_ws s)"
    by (intro scan_once_fuel) simp
  moreover from ws have
    "scan_once (length s) (skip_ws s) = scan_once (length (skip_ws s)) (skip_ws s)"
    by (rule scan_once_fuel)
  ultimately show ?thesis
    by (simp add: json_loads_def)
qed

section \<open>Properties of \<^verbatim>\<open>load_dataset\<close>\<close>

lemma json_loads_error: "json_loads s = Inl e \<Longrightarrow> e = JSONDecodeError s"
  by (auto simp: json_loads_def split: option.splits if_splits)

lemma loads_all_Inr_iff: "loads_all ls = Inr vs \<longleftrightarrow> map json_loads ls = map Inr vs"
proof (induction ls arbitrary: vs)
  case Nil
  then show ?case by auto
next
  case (Cons l ls)
  show ?case
  proof (cases "json_loads l")
    case (Inl e)
    then show ?thesis by (cases vs) auto
  next
    case v: (Inr v)
    show ?thesis
    proof (cases vs)
      case Nil
      with v show ?thesis by (simp split: sum.splits)
    next
      case (Cons w ws)
      with v Cons.IH [of ws] show ?thesis by (auto split: sum.splits)
    qed
  qed
qed

lemma loads_all_first_failure:
  assumes "\<forall>l \<in> set pre. \<exists>v. json_loads l = Inr v" and "json_loads doc = Inl e"
  shows "loads_all (pre @ doc # post) = Inl e"
  using assms by (induction pre) (auto split: sum.splits)

lemma load_dataset_file:
  "fs path = Some (File text) \<Longrightarrow>
   load_dataset fs path =
     ([Exists path, Open path, Close path],
      (case loads_all (file_lines text) of
         Inl e \<Rightarrow> Inl e
       | Inr d \<Rightarrow> Inr \<lparr>data = d, key = ''text''\<rparr>))"
  by (simp add: load_dataset_def exists_def Dataset_init_def split: sum.splits)

text \<open>
  A path at which there is a directory passes the test \<^verbatim>\<open>path.exists()\<close>; it is \<^verbatim>\<open>open\<close>
  that fails on it.
\<close>

lemma load_dataset_directory:
  "fs path = Some Dir \<Longrightarrow>
   load_dataset fs path = ([Exists path, Open path], Inl (IsADirectoryError path))"
  by (simp add: load_dataset_def exists_def)

text \<open>
  C2, as the specification states it, fails on the code: the loader decodes every line and
  skips none. The file with the records \<^verbatim>\<open>{"text":"a"}\<close> and \<^verbatim>\<open>{"text":"b"}\<close> and a blank line
  between them is valid line-delimited input with two non-empty lines, and loading it raises
  \<^verbatim>\<open>JSONDecodeError\<close> on the blank line.
\<close>

theorem load_dataset_blank_line_fails:
  "jsonl_valid blank_between \<and>
   length (filter nonempty_line (file_lines blank_between)) = 2 \<and>
   snd (load_dataset (one_file ''data.jsonl'' blank_between) ''data.jsonl'') =
     Inl (JSONDecodeError [LF])"
proof (intro conjI)
  show "jsonl_valid blank_between"
    by code_simp
  show "length (filter nonempty_line (file_lines blank_between)) = 2"
    by code_simp
  have "loads_all (file_lines blank_between) = Inl (JSONDecodeError [LF])"
    by code_simp
  then show "snd (load_dataset (one_file ''data.jsonl'' blank_between) ''data.jsonl'') =
     Inl (JSONDecodeError [LF])"
    by (simp add: load_dataset_file one_file_def)
qed
lemma is_text_recordD:
  "is_text_record l \<Longrightarrow> \<exists>kvs v. json_loads l = Inr (PyDict kvs) \<and> map_of kvs ''text'' = Some v"
  by (auto simp: is_text_record_def split: sum.splits pyobject.splits)

lemma all_lines_decoded:
  "\<forall>l \<in> set ls. \<exists>v. json_loads l = Inr v \<Longrightarrow> \<exists>vs. map json_loads ls = map Inr vs"
proof (induction ls)
  case Nil
  then show ?case by simp
next
  case (Cons l ls)
  then obtain v vs where "json_loads l = Inr v" and "map json_loads ls = map Inr vs"
    by auto
  then have "map json_loads (l # ls) = map Inr (v # vs)"
    by simp
  then show ?case ..
qed

lemma getitem_nat:
  "i < length vs \<Longrightarrow> getitem \<lparr>data = vs, key = k\<rparr> (int i) = subscript (vs ! i) k"
  by (simp add: getitem_def list_getitem_nat)

text \<open>
  C2, amended: for every existing file that is valid line-delimited input and has no blank
  line, the loader returns an accessor whose length is the number of lines of the file, all
  of them non-empty, and \<open>get(i)\<close> returns the text field of record \<open>i\<close> for every
  \<open>0 \<le> i < length\<close>. (For the two lines \<^verbatim>\<open>{"text":"a"}\<close> and \<^verbatim>\<open>{"text":"b"}\<close> the length is 2,
  \<open>get(0)\<close> is \<^verbatim>\<open>"a"\<close> and \<open>get(1)\<close> is \<^verbatim>\<open>"b"\<close>: the example after the theorem.)
\<close>

theorem load_dataset_valid_file:
  assumes "fs path = Some (File text)" and "jsonl_valid text" and "no_blank_line text"
  shows "\<exists>ds. snd (load_dataset fs path) = Inr ds \<and>
           len ds = length (filter nonempty_line (file_lines text)) \<and>
           (\<forall>i < len ds. \<exists>kvs v.
              json_loads (file_lines text ! i) = Inr (PyDict kvs) \<and>
              map_of kvs ''text'' = Some v \<and>
              getitem ds (int i) = Inr v)"
proof -
  let ?ls = "file_lines text"
  have all: "filter nonempty_line ?ls = ?ls"
    using assms(3) by (simp add: no_blank_line_def list_all_iff)
  with assms(2) have recs: "\<forall>l \<in> set ?ls. is_text_record l"
    by (simp add: jsonl_valid_def list_all_iff)
  then have "\<forall>l \<in> set ?ls. \<exists>v. json_loads l = Inr v"
    using is_text_recordD by blast
  then obtain vs where vs: "map json_loads ?ls = map Inr vs"
    using all_lines_decoded by blast
  then have n: "length vs = length ?ls"
    by (metis length_map)
  let ?ds = "\<lparr>data = vs, key = ''text''\<rparr>"
  have "loads_all ?ls = Inr vs"
    using vs by (simp add: loads_all_Inr_iff)
  then have res: "snd (load_dataset fs path) = Inr ?ds"
    using assms(1) by (simp add: load_dataset_file)
  have size: "len ?ds = length (filter nonempty_line ?ls)"
    using n all by (simp add: len_def)
  have recs_i: "\<exists>kvs v. json_loads (?ls ! i) = Inr (PyDict kvs) \<and>
                  map_of kvs ''text'' = Some v \<and> getitem ?ds (int i) = Inr v"
    if i: "i < len ?ds" for i
  proof -
    from i n have il: "i < length ?ls" and iv: "i < length vs"
      by (simp_all add: len_def)
    from recs il obtain kvs v where
      kv: "json_loads (?ls ! i) = Inr (PyDict kvs)" "map_of kvs ''text'' = Some v"
      using is_text_recordD nth_mem by blast
    from vs il iv have "json_loads (?ls ! i) = Inr (vs ! i)"
      by (metis nth_map)
    with kv(1) have "vs ! i = PyDict kvs"
      by simp
    with kv(2) iv have "getitem ?ds (int i) = Inr v"
      by (simp add: getitem_nat)
    with kv show ?thesis
      by blast
  qed
  from res size recs_i show ?thesis
    by blast
qed

theorem load_dataset_valid_file_witness:
  "jsonl_valid two_records \<and> no_blank_line two_records \<and>
   (\<exists>ds. snd (load_dataset (one_file ''data.jsonl'' two_records) ''data.jsonl'') = Inr ds \<and>
      len ds = 2 \<and>
      getitem ds 0 = Inr (PyStr ''a'') \<and>
      getitem ds 1 = Inr (PyStr ''b''))"
proof -
  let ?fs = "one_file ''data.jsonl'' two_records"
  have h1: "?fs ''data.jsonl'' = Some (File two_records)"
    by (simp add: one_file_def)
  have h2: "jsonl_valid two_records"
    by code_simp
  have h3: "no_blank_line two_records"
    by code_simp
  have n: "length (filter nonempty_line (file_lines two_records)) = 2"
    by code_simp
  have l0: "json_loads (file_lines two_records ! 0) = Inr (PyDict [(''text'', PyStr ''a'')])"
    by code_simp
  have l1: "json_loads (file_lines two_records ! 1) = Inr (PyDict [(''text'', PyStr ''b'')])"
    by code_simp
  from load_dataset_valid_file [of ?fs "''data.jsonl''", OF h1 h2 h3] obtain ds where
    ds: "snd (load_dataset ?fs ''data.jsonl'') = Inr ds"
      "len ds = length (filter nonempty_line (file_lines two_records))"
      "\<forall>i < len ds. \<exists>kvs v.
          json_loads (file_lines two_records ! i) = Inr (PyDict kvs) \<and>
          map_of kvs ''text'' = Some v \<and> getitem ds (int i) = Inr v"
    by blast
  from ds(2) n have len2: "len ds = 2"
    by simp
  from ds(3) [rule_format, of 0] len2 obtain kvs0 v0 where
    "json_loads (file_lines two_records ! 0) = Inr (PyDict kvs0)"
    "map_of kvs0 ''text'' = Some v0" "getitem ds 0 = Inr v0"
    by auto
  with l0 have g0: "getitem ds 0 = Inr (PyStr ''a'')"
    by auto
  from ds(3) [rule_format, of 1] len2 obtain kvs1 v1 where
    "json_loads (file_lines two_records ! 1) = Inr (PyDict kvs1)"
    "map_of kvs1 ''text'' = Some v1" "getitem ds 1 = Inr v1"
    by auto
  with l1 have g1: "getitem ds 1 = Inr (PyStr ''b'')"
    by auto
  from h2 h3 ds(1) len2 g0 g1 show ?thesis
    by blast
qed

text \<open>
  C6: for every path at which nothing exists, the loader raises \<^verbatim>\<open>FileNotFoundError\<close> right
  after the existence test: the file is never opened, and no accessor is returned.
\<close>

theorem load_dataset_missing_path:
  assumes "\<not> exists fs path"
  shows "load_dataset fs path = ([Exists path], Inl (FileNotFoundError path)) \<and>
         Open path \<notin> set (fst (load_dataset fs path))"
  using assms by (simp add: load_dataset_def)

theorem load_dataset_missing_path_witness:
  "\<not> exists (one_file ''data.jsonl'' two_records) ''missing.jsonl'' \<and>
   load_dataset (one_file ''data.jsonl'' two_records) ''missing.jsonl'' =
     ([Exists ''missing.jsonl''], Inl (FileNotFoundError ''missing.jsonl''))"
proof -
  have h: "\<not> exists (one_file ''data.jsonl'' two_records) ''missing.jsonl''"
    by (simp add: exists_def one_file_def)
  from h load_dataset_missing_path [OF h] show ?thesis
    by blast
qed

text \<open>
  C7: for every existing file with at least one line that \<^verbatim>\<open>json.loads\<close> refuses, the loader
  raises the \<^verbatim>\<open>JSONDecodeError\<close> of the first such line and returns no accessor; the lines
  before it were decoded, and their values are dropped.
\<close>

theorem load_dataset_malformed_line:
  assumes "fs path = Some (File text)"
    and "\<exists>line \<in> set (file_lines text). \<exists>e. json_loads line = Inl e"
  shows "\<exists>pre doc post.
           file_lines text = pre @ doc # post \<and>
           (\<forall>l \<in> set pre. \<exists>v. json_loads l = Inr v) \<and>
           json_loads doc = Inl (JSONDecodeError doc) \<and>
           load_dataset fs path =
             ([Exists path, Open path, Close path], Inl (JSONDecodeError doc))"
proof -
  let ?bad = "\<lambda>l. \<exists>e. json_loads l = Inl e"
  from assms(2) obtain pre doc post where
    split: "file_lines text = pre @ doc # post" and bad: "?bad doc"
    and good: "\<forall>l \<in> set pre. \<not> ?bad l"
    using split_list_first_prop [of "file_lines text" ?bad] by blast
  from good have pre: "\<forall>l \<in> set pre. \<exists>v. json_loads l = Inr v"
    by (metis sum.exhaust)
  from bad have doc: "json_loads doc = Inl (JSONDecodeError doc)"
    using json_loads_error by blast
  with pre have "loads_all (pre @ doc # post) = Inl (JSONDecodeError doc)"
    by (rule loads_all_first_failure)
  with split assms(1) have
    "load_dataset fs path = ([Exists path, Open path, Close path], Inl (JSONDecodeError doc))"
    by (simp add: load_dataset_file)
  with split pre doc show ?thesis
    by blast
qed

theorem load_dataset_malformed_line_witness:
  "(\<exists>line \<in> set (file_lines one_malformed). \<exists>e. json_loads line = Inl e) \<and>
   (\<exists>pre doc post.
      file_lines one_malformed = pre @ doc # post \<and>
      (\<forall>l \<in> set pre. \<exists>v. json_loads l = Inr v) \<and>
      json_loads doc = Inl (JSONDecodeError doc) \<and>
      load_dataset (one_file ''data.jsonl'' one_malformed) ''data.jsonl'' =
        ([Exists ''data.jsonl'', Open ''data.jsonl'', Close ''data.jsonl''],
         Inl (JSONDecodeError doc))) \<and>
   snd (load_dataset (one_file ''data.jsonl'' one_malformed) ''data.jsonl'') =
     Inl (JSONDecodeError (''{oops'' @ [LF]))"
proof -
  let ?fs = "one_file ''data.jsonl'' one_malformed"
  have h1: "?fs ''data.jsonl'' = Some (File one_malformed)"
    by (simp add: one_file_def)
  have mem: "''{oops'' @ [LF] \<in> set (file_lines one_malformed)"
    by code_simp
  have bad: "json_loads (''{oops'' @ [LF]) = Inl (JSONDecodeError (''{oops'' @ [LF]))"
    by code_simp
  from mem bad have h2: "\<exists>line \<in> set (file_lines one_malformed). \<exists>e. json_loads line = Inl e"
    by blast
  have ev: "snd (load_dataset ?fs ''data.jsonl'') = Inl (JSONDecodeError (''{oops'' @ [LF]))"
    by code_simp
  from h2 load_dataset_malformed_line [of ?fs "''data.jsonl''", OF h1 h2] ev show ?thesis
    by blast
qed

text \<open>
  C10: the loader checks no schema. For every existing file whose lines all decode, loading
  succeeds and the accessor holds the decoded values, whatever they are. A value that is an
  object without the \<^verbatim>\<open>"text"\<close> key fails only at \<open>get(i)\<close>, with \<^verbatim>\<open>KeyError\<close>; a value that is
  not an object fails only at \<open>get(i)\<close> too, with \<^verbatim>\<open>TypeError\<close>.
\<close>

theorem load_dataset_no_schema_check:
  assumes "fs path = Some (File text)" and "map json_loads (file_lines text) = map Inr vs"
  shows "load_dataset fs path =
           ([Exists path, Open path, Close path], Inr \<lparr>data = vs, key = ''text''\<rparr>) \<and>
         (\<forall>i < length vs.
            (\<forall>kvs. vs ! i = PyDict kvs \<and> ''text'' \<notin> fst ` set kvs \<longrightarrow>
               getitem \<lparr>data = vs, key = ''text''\<rparr> (int i) = Inl (KeyError ''text'')) \<and>
            ((\<forall>kvs. vs ! i \<noteq> PyDict kvs) \<longrightarrow>
               getitem \<lparr>data = vs, key = ''text''\<rparr> (int i) = Inl TypeError))"
proof (intro conjI allI impI)
  have "loads_all (file_lines text) = Inr vs"
    using assms(2) by (simp add: loads_all_Inr_iff)
  then show "load_dataset fs path =
      ([Exists path, Open path, Close path], Inr \<lparr>data = vs, key = ''text''\<rparr>)"
    using assms(1) by (simp add: load_dataset_file)
next
  fix i kvs
  assume "i < length vs" and "vs ! i = PyDict kvs \<and> ''text'' \<notin> fst ` set kvs"
  then show "getitem \<lparr>data = vs, key = ''text''\<rparr> (int i) = Inl (KeyError ''text'')"
    using subscript_dict_Inl [of kvs "''text''" "KeyError ''text''"]
    by (simp only: getitem_nat) simp
next
  fix i
  assume "i < length vs" and "\<forall>kvs. vs ! i \<noteq> PyDict kvs"
  then show "getitem \<lparr>data = vs, key = ''text''\<rparr> (int i) = Inl TypeError"
    by (cases "vs ! i") (simp_all add: getitem_nat)
qed

theorem load_dataset_no_schema_check_witness:
  "map json_loads (file_lines no_schema) =
     map Inr [PyDict [(''label'', PyInt 3)], PyInt 42, PyDict [(''text'', PyStr ''b'')]] \<and>
   snd (load_dataset (one_file ''data.jsonl'' no_schema) ''data.jsonl'') =
     Inr \<lparr>data = [PyDict [(''label'', PyInt 3)], PyInt 42, PyDict [(''text'', PyStr ''b'')]],
          key = ''text''\<rparr> \<and>
   getitem \<lparr>data = [PyDict [(''label'', PyInt 3)], PyInt 42, PyDict [(''text'', PyStr ''b'')]],
            key = ''text''\<rparr> 0 = Inl (KeyError ''text'') \<and>
   getitem \<lparr>data = [PyDict [(''label'', PyInt 3)], PyInt 42, PyDict [(''text'', PyStr ''b'')]],
            key = ''text''\<rparr> 1 = Inl TypeError"
proof -
  let ?fs = "one_file ''data.jsonl'' no_schema"
  let ?vs = "[PyDict [(''label'', PyInt 3)], PyInt 42, PyDict [(''text'', PyStr ''b'')]]"
  have h1: "?fs ''data.jsonl'' = Some (File no_schema)"
    by (simp add: one_file_def)
  have h2: "map json_loads (file_lines no_schema) = map Inr ?vs"
    by code_simp
  note inst = load_dataset_no_schema_check [of ?fs "''data.jsonl''", OF h1 h2]
  from inst have res: "snd (load_dataset ?fs ''data.jsonl'') = Inr \<lparr>data = ?vs, key = ''text''\<rparr>"
    by simp
  from inst have all: "\<forall>i < length ?vs.
      (\<forall>kvs. ?vs ! i = PyDict kvs \<and> ''text'' \<notin> fst ` set kvs \<longrightarrow>
         getitem \<lparr>data = ?vs, key = ''text''\<rparr> (int i) = Inl (KeyError ''text'')) \<and>
      ((\<forall>kvs. ?vs ! i \<noteq> PyDict kvs) \<longrightarrow>
         getitem \<lparr>data = ?vs, key = ''text''\<rparr> (int i) = Inl TypeError)"
    by blast
  from all [rule_format, of 0] have g0:
    "getitem \<lparr>data = ?vs, key = ''text''\<rparr> 0 = Inl (KeyError ''text'')"
    by simp
  from all [rule_format, of 1] have g1:
    "getitem \<lparr>data = ?vs, key = ''text''\<rparr> 1 = Inl TypeError"
    by simp
  from h2 res g0 g1 show ?thesis
    by blast
qed

section \<open>Properties of \<^verbatim>\<open>modify_model_with_lora\<close>\<close>

subsection \<open>Attributes, freezing and the counts\<close>

lemma attr_setattr:
  "setattr obj n v = Inr obj' \<Longrightarrow> attr obj' m = (if m = n then Some v else attr obj m)"
  by (cases obj) (auto simp: update_conv')

lemma hasattr_Module: "attr obj n = Some v \<Longrightarrow> \<exists>attrs. obj = Module attrs"
  by (cases obj) auto

lemma setattr_ok: "attr obj n = Some c \<Longrightarrow> \<exists>obj'. setattr obj n v = Inr obj'"
  by (cases obj) auto

lemma attr_freeze: "attr (freeze obj) n = map_option freeze (attr obj n)"
  by (cases obj) (auto simp: map_of_map map_prod_def)

lemma is_linear_freeze: "is_linear (freeze lin) = is_linear lin"
  by (auto simp: is_linear_def attr_freeze split: option.splits module.splits)

lemma additive_count_lora: "additive count_lora"
  by (simp add: additive_def)

lemma additive_trainable_arrays: "additive trainable_arrays"
  by (simp add: additive_def)

lemma additive_trainable_adapters: "additive trainable_adapters"
  by (simp add: additive_def)

lemma sum_update:
  "map_of al k = Some c \<Longrightarrow>
   sum_list (map (\<lambda>(n, v). mu v) (AList.update k c' al)) + mu c =
   sum_list (map (\<lambda>(n, v). mu v) al) + (mu c' :: nat)"
  by (induction al) (auto split: if_splits)

lemma mu_setattr:
  assumes "additive mu" and "attr obj n = Some c" and "setattr obj n c' = Inr obj'"
  shows "mu obj' + mu c = mu obj + mu c'"
proof -
  from assms(2) obtain attrs where obj: "obj = Module attrs"
    using hasattr_Module by blast
  with assms(2) have "map_of attrs n = Some c" by simp
  then have "sum_list (map (\<lambda>(n, v). mu v) (AList.update n c' attrs)) + mu c =
             sum_list (map (\<lambda>(n, v). mu v) attrs) + mu c'"
    by (rule sum_update)
  with assms(1,3) obj show ?thesis
    by (auto simp: additive_def)
qed

lemma freeze_count_lora: "count_lora (freeze m) = count_lora m"
  by (induction m) (auto simp: comp_def case_prod_unfold intro!: arg_cong[where f=sum_list])

lemma freeze_trainable_arrays: "trainable_arrays (freeze m) = 0"
  by (induction m) (auto simp: comp_def case_prod_unfold)

lemma freeze_trainable_adapters: "trainable_adapters (freeze m) = 0"
  by (induction m) (auto simp: comp_def case_prod_unfold)


lemma linear_where_present_Cons:
  "linear_where_present (n # ns) obj \<longleftrightarrow>
     (\<forall>lin. attr obj n = Some lin \<longrightarrow> is_linear lin) \<and> linear_where_present ns obj"
  by (auto simp: linear_where_present_def split: option.splits)

lemma linear_where_present_cong:
  "\<forall>n \<in> set ns. attr obj' n = attr obj n \<Longrightarrow>
   linear_where_present ns obj' = linear_where_present ns obj"
  by (simp add: linear_where_present_def list_all_iff)

lemma present_cong:
  "\<forall>n \<in> set ns. attr obj' n = attr obj n \<Longrightarrow> present obj' ns = present obj ns"
proof -
  assume "\<forall>n \<in> set ns. attr obj' n = attr obj n"
  then have "filter (hasattr obj') ns = filter (hasattr obj) ns"
    by (intro filter_cong) (simp_all add: hasattr_def)
  then show ?thesis
    by (simp add: present_def)
qed

lemma replace_projections_ok:
  assumes "distinct names" and "linear_where_present names obj"
  shows "\<exists>obj'. replace_projections names obj = Inr obj' \<and>
           (\<forall>n. attr obj' n =
              (if n \<in> set names
               then map_option (\<lambda>lin. LoRALinear lin 64 128 True) (attr obj n)
               else attr obj n)) \<and>
           (\<forall>mu d. additive mu \<longrightarrow> wrapper_adds mu d \<longrightarrow>
              mu obj' = mu obj + d * present obj names)"
  using assms
proof (induction names arbitrary: obj)
  case Nil
  then show ?case by (simp add: present_def)
next
  case (Cons proj projs)
  from Cons.prems have dist: "distinct projs" and fresh: "proj \<notin> set projs"
    by simp_all
  from Cons.prems(2) have lin: "\<forall>lin. attr obj proj = Some lin \<longrightarrow> is_linear lin"
    and rest: "linear_where_present projs obj"
    by (simp_all add: linear_where_present_Cons)
  show ?case
  proof (cases "attr obj proj")
    case None
    from Cons.IH [OF dist rest] obtain obj' where
      r: "replace_projections projs obj = Inr obj'"
      and a: "\<forall>n. attr obj' n =
              (if n \<in> set projs
               then map_option (\<lambda>lin. LoRALinear lin 64 128 True) (attr obj n)
               else attr obj n)"
      and m: "\<forall>mu d. additive mu \<longrightarrow> wrapper_adds mu d \<longrightarrow>
              mu obj' = mu obj + d * present obj projs"
      by blast
    from None r have "replace_projections (proj # projs) obj = Inr obj'"
      by (simp add: hasattr_def)
    moreover from None a have "\<forall>n. attr obj' n =
              (if n \<in> set (proj # projs)
               then map_option (\<lambda>lin. LoRALinear lin 64 128 True) (attr obj n)
               else attr obj n)"
      by auto
    moreover from None have "present obj (proj # projs) = present obj projs"
      by (simp add: present_def hasattr_def)
    ultimately show ?thesis
      using m by auto
  next
    case (Some lin)
    with lin have il: "is_linear lin"
      by simp
    from Some obtain obj1 where s1: "setattr obj proj (LoRALinear lin 64 128 True) = Inr obj1"
      using setattr_ok by blast
    then have a1: "\<And>m. attr obj1 m =
        (if m = proj then Some (LoRALinear lin 64 128 True) else attr obj m)"
      by (rule attr_setattr)
    with fresh have same: "\<forall>n \<in> set projs. attr obj1 n = attr obj n"
      by auto
    from rest linear_where_present_cong [OF same] have rest1: "linear_where_present projs obj1"
      by simp
    from Cons.IH [OF dist rest1] obtain obj' where
      r: "replace_projections projs obj1 = Inr obj'"
      and a: "\<forall>n. attr obj' n =
              (if n \<in> set projs
               then map_option (\<lambda>lin. LoRALinear lin 64 128 True) (attr obj1 n)
               else attr obj1 n)"
      and m: "\<forall>mu d. additive mu \<longrightarrow> wrapper_adds mu d \<longrightarrow>
              mu obj' = mu obj1 + d * present obj1 projs"
      by blast
    from Some il s1 r have res: "replace_projections (proj # projs) obj = Inr obj'"
      by (simp add: hasattr_def getattr_def from_linear_def)
    from a a1 Some fresh have attrs: "\<forall>n. attr obj' n =
              (if n \<in> set (proj # projs)
               then map_option (\<lambda>lin. LoRALinear lin 64 128 True) (attr obj n)
               else attr obj n)"
      by auto
    have count: "mu obj' = mu obj + d * present obj (proj # projs)"
      if add: "additive mu" and w: "wrapper_adds mu d" for mu d
    proof -
      from mu_setattr [OF add Some s1] w have "mu obj1 + mu lin = mu obj + (mu lin + d)"
        by (simp add: wrapper_adds_def)
      then have "mu obj1 = mu obj + d"
        by simp
      moreover from m add w have "mu obj' = mu obj1 + d * present obj1 projs"
        by blast
      moreover from same have "present obj1 projs = present obj projs"
        by (rule present_cong)
      moreover from Some have "present obj (proj # projs) = Suc (present obj projs)"
        by (simp add: present_def hasattr_def)
      ultimately show ?thesis
        by simp
    qed
    from res attrs count show ?thesis
      by blast
  qed
qed

lemma in_attr_ok:
  assumes "attr obj n = Some c" and "f c = Inr c'"
  shows "\<exists>obj'. in_attr obj n f = Inr obj' \<and>
           (\<forall>m. attr obj' m = (if m = n then Some c' else attr obj m)) \<and>
           (\<forall>mu. additive mu \<longrightarrow> mu obj' + mu c = mu obj + mu c')"
proof -
  from assms(1) obtain obj' where s: "setattr obj n c' = Inr obj'"
    using setattr_ok by blast
  with assms have "in_attr obj n f = Inr obj'"
    by (simp add: in_attr_def getattr_def)
  moreover from s have "\<forall>m. attr obj' m = (if m = n then Some c' else attr obj m)"
    by (simp add: attr_setattr)
  moreover from s assms(1) have "\<forall>mu. additive mu \<longrightarrow> mu obj' + mu c = mu obj + mu c'"
    using mu_setattr by blast
  ultimately show ?thesis
    by blast
qed

lemma for_each_Inr_iff: "for_each f ms = Inr ms' \<longleftrightarrow> map f ms = map Inr ms'"
proof (induction ms arbitrary: ms')
  case Nil
  then show ?case by auto
next
  case (Cons m ms)
  show ?case
  proof (cases "f m")
    case (Inl e)
    then show ?thesis by (cases ms') auto
  next
    case v: (Inr v)
    show ?thesis
    proof (cases ms')
      case Nil
      with v show ?thesis by (simp split: sum.splits)
    next
      case (Cons w ws)
      with v Cons.IH [of ws] show ?thesis by (auto split: sum.splits)
    qed
  qed
qed

lemma for_each_ok:
  assumes "\<forall>m \<in> set ms. \<exists>m'. f m = Inr m' \<and> Q m m'"
  shows "\<exists>ms'. for_each f ms = Inr ms' \<and> length ms' = length ms \<and>
           (\<forall>i < length ms. f (ms ! i) = Inr (ms' ! i) \<and> Q (ms ! i) (ms' ! i))"
  using assms
proof (induction ms)
  case Nil
  then show ?case by simp
next
  case (Cons m ms)
  then obtain m' ms' where m: "f m = Inr m'" "Q m m'"
    and ms: "for_each f ms = Inr ms'" "length ms' = length ms"
      "\<forall>i < length ms. f (ms ! i) = Inr (ms' ! i) \<and> Q (ms ! i) (ms' ! i)"
    by auto
  have "\<forall>i < length (m # ms). f ((m # ms) ! i) = Inr ((m' # ms') ! i) \<and>
          Q ((m # ms) ! i) ((m' # ms') ! i)"
    using m ms(3) by (auto simp: nth_Cons split: nat.splits)
  with m ms(1,2) show ?case
    by (intro exI [of _ "m' # ms'"]) simp
qed

lemma sum_list_pointwise:
  assumes "length ms' = length ms"
    and "\<forall>i < length ms. (mu (ms' ! i) :: nat) = mu (ms ! i) + g (ms ! i)"
  shows "sum_list (map mu ms') = sum_list (map mu ms) + sum_list (map g ms)"
  using assms
proof (induction ms arbitrary: ms')
  case Nil
  then show ?case by simp
next
  case (Cons m ms)
  then obtain m' ms1 where ms': "ms' = m' # ms1" and len: "length ms1 = length ms"
    by (cases ms') auto
  from Cons.prems(2) ms' have hd: "mu m' = mu m + g m"
    by fastforce
  from Cons.prems(2) ms' have "\<forall>i < length ms. mu (ms1 ! i) = mu (ms ! i) + g (ms ! i)"
    by fastforce
  with Cons.IH [OF len] have "sum_list (map mu ms1) = sum_list (map mu ms) + sum_list (map g ms)"
    by blast
  with hd ms' show ?case
    by simp
qed


lemma distinct_projections: "distinct projections"
  by (simp add: projections_def)

lemma projections_split:
  "take 4 projections = [''q_proj'', ''k_proj'', ''v_proj'', ''o_proj'']"
  "drop 4 projections = [''gate_proj'', ''up_proj'', ''down_proj'']"
  by (simp_all add: projections_def)

lemma experts_not_projection: "''experts'' \<notin> set (drop 4 projections)"
  by (simp add: projections_split)

lemma modify_moe_ok:
  assumes wf: "well_formed_moe moe" and es: "attr moe ''experts'' = Some (ModuleList es)"
  shows "\<exists>moe' es'. modify_moe moe = Inr moe' \<and>
           attr moe' ''experts'' = Some (ModuleList es') \<and> length es' = length es \<and>
           (\<forall>n. n \<noteq> ''experts'' \<longrightarrow> wrapped_attr (drop 4 projections) moe moe' n) \<and>
           (\<forall>j < length es. \<forall>n. wrapped_attr projections (es ! j) (es' ! j) n) \<and>
           (\<forall>mu d. additive mu \<longrightarrow> wrapper_adds mu d \<longrightarrow>
              mu moe' = mu moe + d * moe_injections moe)"
proof -
  from wf es have lin: "linear_where_present (drop 4 projections) moe"
    and elin: "\<forall>e \<in> set es. linear_where_present projections e"
    by (simp_all add: well_formed_moe_def list_all_iff)
  from distinct_projections have "distinct (drop 4 projections)"
    by (rule distinct_drop)
  from replace_projections_ok [OF this lin] obtain moe1 where
    r1: "replace_projections (drop 4 projections) moe = Inr moe1"
    and a1: "\<forall>n. attr moe1 n =
              (if n \<in> set (drop 4 projections)
               then map_option (\<lambda>lin. LoRALinear lin 64 128 True) (attr moe n)
               else attr moe n)"
    and m1: "\<forall>mu d. additive mu \<longrightarrow> wrapper_adds mu d \<longrightarrow>
              mu moe1 = mu moe + d * present moe (drop 4 projections)"
    by blast
  from a1 es experts_not_projection have es1: "attr moe1 ''experts'' = Some (ModuleList es)"
    by simp
  let ?Q = "\<lambda>e e'. (\<forall>n. wrapped_attr projections e e' n) \<and>
              (\<forall>mu d. additive mu \<longrightarrow> wrapper_adds mu d \<longrightarrow>
                 mu e' = mu e + d * present e projections)"
  have "\<forall>e \<in> set es. \<exists>e'. replace_projections projections e = Inr e' \<and> ?Q e e'"
    using replace_projections_ok [OF distinct_projections] elin
    unfolding wrapped_attr_def by blast
  from for_each_ok [OF this] obtain es' where
    fe: "for_each (replace_projections projections) es = Inr es'"
    and len: "length es' = length es"
    and each: "\<forall>j < length es. replace_projections projections (es ! j) = Inr (es' ! j) \<and>
                 ?Q (es ! j) (es' ! j)"
    by blast
  from fe have fi: "for_in (replace_projections projections) (ModuleList es) = Inr (ModuleList es')"
    by simp
  from in_attr_ok [where f = "for_in (replace_projections projections)", OF es1 fi]
  obtain moe' where
    r2: "in_attr moe1 ''experts'' (for_in (replace_projections projections)) = Inr moe'"
    and a2: "\<forall>m. attr moe' m = (if m = ''experts'' then Some (ModuleList es') else attr moe1 m)"
    and m2: "\<forall>mu. additive mu \<longrightarrow>
               mu moe' + mu (ModuleList es) = mu moe1 + mu (ModuleList es')"
    by blast
  from r1 r2 have res: "modify_moe moe = Inr moe'"
    by (simp add: modify_moe_def)
  from a2 have ex': "attr moe' ''experts'' = Some (ModuleList es')"
    by simp
  from a1 a2 have frame: "\<forall>n. n \<noteq> ''experts'' \<longrightarrow> wrapped_attr (drop 4 projections) moe moe' n"
    by (simp add: wrapped_attr_def)
  from each have experts: "\<forall>j < length es. \<forall>n. wrapped_attr projections (es ! j) (es' ! j) n"
    by blast
  have count: "mu moe' = mu moe + d * moe_injections moe"
    if add: "additive mu" and w: "wrapper_adds mu d" for mu d
  proof -
    from each add w have
      "\<forall>j < length es. mu (es' ! j) = mu (es ! j) + d * present (es ! j) projections"
      by blast
    from sum_list_pointwise [OF len this] have
      "sum_list (map mu es') =
         sum_list (map mu es) + sum_list (map (\<lambda>e. d * present e projections) es)" .
    also have "sum_list (map (\<lambda>e. d * present e projections) es) =
         d * sum_list (map (\<lambda>e. present e projections) es)"
      by (simp add: sum_list_const_mult)
    finally have "mu (ModuleList es') =
         mu (ModuleList es) + d * sum_list (map (\<lambda>e. present e projections) es)"
      using add by (simp add: additive_def)
    moreover from m2 add have "mu moe' + mu (ModuleList es) = mu moe1 + mu (ModuleList es')"
      by blast
    moreover from m1 add w have "mu moe1 = mu moe + d * present moe (drop 4 projections)"
      by blast
    ultimately show ?thesis
      using es by (simp add: moe_injections_def distrib_left)
  qed
  from res ex' len frame experts count show ?thesis
    by blast
qed


lemma hasattr_freeze: "hasattr (freeze obj) n = hasattr obj n"
  by (simp add: hasattr_def attr_freeze)

lemma present_freeze: "present (freeze obj) ns = present obj ns"
  by (simp add: present_def hasattr_freeze [abs_def])

lemma linear_where_present_freeze:
  "linear_where_present ns (freeze obj) = linear_where_present ns obj"
  by (auto simp: linear_where_present_def attr_freeze is_linear_freeze list_all_iff
      split: option.splits)

lemma well_formed_moe_freeze: "well_formed_moe (freeze moe) = well_formed_moe moe"
  by (auto simp: well_formed_moe_def attr_freeze linear_where_present_freeze list_all_iff
      split: option.splits module.splits)

lemma well_formed_layer_freeze: "well_formed_layer (freeze l) = well_formed_layer l"
  by (auto simp: well_formed_layer_def attr_freeze linear_where_present_freeze
      well_formed_moe_freeze split: option.splits)

lemma moe_injections_freeze: "moe_injections (freeze moe) = moe_injections moe"
  by (auto simp: moe_injections_def attr_freeze present_freeze comp_def
      split: option.splits module.splits)

lemma layer_injections_freeze: "layer_injections (freeze l) = layer_injections l"
  by (auto simp: layer_injections_def attr_freeze present_freeze moe_injections_freeze
      split: option.splits)

lemma modify_layer_ok:
  assumes wf: "well_formed_layer l" and sa: "attr l ''self_attn'' = Some sa"
  shows "\<exists>l' sa'. modify_layer l = Inr l' \<and>
           attr l' ''self_attn'' = Some sa' \<and>
           (\<forall>n. wrapped_attr (take 4 projections) sa sa' n) \<and>
           (\<forall>n. n \<noteq> ''self_attn'' \<and> n \<noteq> ''block_sparse_moe'' \<longrightarrow> attr l' n = attr l n) \<and>
           (attr l ''block_sparse_moe'' = None \<longrightarrow> attr l' ''block_sparse_moe'' = None) \<and>
           (\<forall>moe. attr l ''block_sparse_moe'' = Some moe \<longrightarrow>
              (\<exists>moe'. modify_moe moe = Inr moe' \<and> attr l' ''block_sparse_moe'' = Some moe')) \<and>
           (\<forall>mu d. additive mu \<longrightarrow> wrapper_adds mu d \<longrightarrow>
              mu l' = mu l + d * layer_injections l)"
proof -
  from wf sa have lin: "linear_where_present (take 4 projections) sa"
    by (simp add: well_formed_layer_def)
  from distinct_projections have "distinct (take 4 projections)"
    by (rule distinct_take)
  from replace_projections_ok [OF this lin] obtain sa' where
    r1: "replace_projections (take 4 projections) sa = Inr sa'"
    and a1: "\<forall>n. wrapped_attr (take 4 projections) sa sa' n"
    and m1: "\<forall>mu d. additive mu \<longrightarrow> wrapper_adds mu d \<longrightarrow>
              mu sa' = mu sa + d * present sa (take 4 projections)"
    unfolding wrapped_attr_def by blast
  from in_attr_ok [where f = "replace_projections (take 4 projections)", OF sa r1]
  obtain l1 where
    r2: "in_attr l ''self_attn'' (replace_projections (take 4 projections)) = Inr l1"
    and a2: "\<forall>m. attr l1 m = (if m = ''self_attn'' then Some sa' else attr l m)"
    and m2: "\<forall>mu. additive mu \<longrightarrow> mu l1 + mu sa = mu l + mu sa'"
    by blast
  have c1: "mu l1 = mu l + d * present sa (take 4 projections)"
    if "additive mu" and "wrapper_adds mu d" for mu d
  proof -
    from m2 that(1) have "mu l1 + mu sa = mu l + mu sa'"
      by blast
    moreover from m1 that have "mu sa' = mu sa + d * present sa (take 4 projections)"
      by blast
    ultimately show ?thesis
      by simp
  qed
  from a2 have bsm: "attr l1 ''block_sparse_moe'' = attr l ''block_sparse_moe''"
    by simp
  show ?thesis
  proof (cases "attr l ''block_sparse_moe''")
    case None
    with r2 bsm have "modify_layer l = Inr l1"
      by (simp add: modify_layer_def hasattr_def)
    moreover from None sa have "layer_injections l = present sa (take 4 projections)"
      by (simp add: layer_injections_def)
    ultimately show ?thesis
      using a1 a2 c1 None by (intro exI [of _ l1] exI [of _ sa']) simp
  next
    case (Some moe)
    with wf sa have wfm: "well_formed_moe moe"
      by (simp add: well_formed_layer_def)
    then obtain es where es: "attr moe ''experts'' = Some (ModuleList es)"
      by (auto simp: well_formed_moe_def split: option.splits module.splits)
    from modify_moe_ok [OF wfm es] obtain moe' where
      r3: "modify_moe moe = Inr moe'"
      and m3: "\<forall>mu d. additive mu \<longrightarrow> wrapper_adds mu d \<longrightarrow>
                 mu moe' = mu moe + d * moe_injections moe"
      by blast
    from Some bsm have b1: "attr l1 ''block_sparse_moe'' = Some moe"
      by simp
    from in_attr_ok [where f = modify_moe, OF b1 r3] obtain l' where
      r4: "in_attr l1 ''block_sparse_moe'' modify_moe = Inr l'"
      and a4: "\<forall>m. attr l' m = (if m = ''block_sparse_moe'' then Some moe' else attr l1 m)"
      and m4: "\<forall>mu. additive mu \<longrightarrow> mu l' + mu moe = mu l1 + mu moe'"
      by blast
    from r2 r4 b1 have res: "modify_layer l = Inr l'"
      by (simp add: modify_layer_def hasattr_def)
    from a2 a4 have s': "attr l' ''self_attn'' = Some sa'"
      by simp
    from a2 a4 have frame:
      "\<forall>n. n \<noteq> ''self_attn'' \<and> n \<noteq> ''block_sparse_moe'' \<longrightarrow> attr l' n = attr l n"
      by simp
    from a4 r3 Some have moe: "\<forall>m. attr l ''block_sparse_moe'' = Some m \<longrightarrow>
              (\<exists>moe'. modify_moe m = Inr moe' \<and> attr l' ''block_sparse_moe'' = Some moe')"
      by simp
    have count: "mu l' = mu l + d * layer_injections l"
      if add: "additive mu" and w: "wrapper_adds mu d" for mu d
    proof -
      from m4 add have "mu l' + mu moe = mu l1 + mu moe'"
        by blast
      moreover from m3 add w have "mu moe' = mu moe + d * moe_injections moe"
        by blast
      moreover from c1 add w have "mu l1 = mu l + d * present sa (take 4 projections)" .
      moreover from Some sa have
        "layer_injections l = present sa (take 4 projections) + moe_injections moe"
        by (simp add: layer_injections_def)
      ultimately show ?thesis
        by (simp add: distrib_left)
    qed
    from res s' a1 frame moe count Some show ?thesis
      by (intro exI [of _ l'] exI [of _ sa']) simp
  qed
qed

lemma modify_model_ok:
  assumes m: "attr model ''model'' = Some inner"
    and ls: "attr inner ''layers'' = Some (ModuleList ls)"
    and wf: "\<forall>l \<in> set ls. well_formed_layer l"
  shows "\<exists>model' inner' ls'. modify_model_with_lora model = Inr model' \<and>
           attr model' ''model'' = Some inner' \<and>
           attr inner' ''layers'' = Some (ModuleList ls') \<and>
           length ls' = length ls \<and>
           (\<forall>n. n \<noteq> ''model'' \<longrightarrow> attr model' n = map_option freeze (attr model n)) \<and>
           (\<forall>n. n \<noteq> ''layers'' \<longrightarrow> attr inner' n = map_option freeze (attr inner n)) \<and>
           (\<forall>i < length ls. modify_layer (freeze (ls ! i)) = Inr (ls' ! i)) \<and>
           (\<forall>mu d. additive mu \<longrightarrow> wrapper_adds mu d \<longrightarrow>
              mu model' = mu (freeze model) + d * sum_list (map layer_injections ls))"
proof -
  let ?fls = "map freeze ls"
  let ?Q = "\<lambda>l l'. \<forall>mu d. additive mu \<longrightarrow> wrapper_adds mu d \<longrightarrow>
              mu l' = mu l + d * layer_injections l"
  from m obtain attrs where "model = Module attrs"
    using hasattr_Module by blast
  then have ism: "is_module model"
    by simp
  from m have fm: "attr (freeze model) ''model'' = Some (freeze inner)"
    by (simp add: attr_freeze)
  from ls have fl: "attr (freeze inner) ''layers'' = Some (ModuleList ?fls)"
    by (simp add: attr_freeze)
  have "\<forall>l \<in> set ?fls. \<exists>l'. modify_layer l = Inr l' \<and> ?Q l l'"
  proof
    fix l
    assume "l \<in> set ?fls"
    with wf have w: "well_formed_layer l"
      by (auto simp: well_formed_layer_freeze)
    then obtain sa where "attr l ''self_attn'' = Some sa"
      by (auto simp: well_formed_layer_def split: option.splits)
    from modify_layer_ok [OF w this] show "\<exists>l'. modify_layer l = Inr l' \<and> ?Q l l'"
      by blast
  qed
  from for_each_ok [OF this] obtain ls' where
    fe: "for_each modify_layer ?fls = Inr ls'"
    and len: "length ls' = length ?fls"
    and each: "\<forall>i < length ?fls. modify_layer (?fls ! i) = Inr (ls' ! i) \<and> ?Q (?fls ! i) (ls' ! i)"
    by blast
  from fe have fi: "for_in modify_layer (ModuleList ?fls) = Inr (ModuleList ls')"
    by simp
  from in_attr_ok [where f = "for_in modify_layer", OF fl fi] obtain inner' where
    r1: "in_attr (freeze inner) ''layers'' (for_in modify_layer) = Inr inner'"
    and a1: "\<forall>n. attr inner' n = (if n = ''layers'' then Some (ModuleList ls') else attr (freeze inner) n)"
    and m1: "\<forall>mu. additive mu \<longrightarrow>
               mu inner' + mu (ModuleList ?fls) = mu (freeze inner) + mu (ModuleList ls')"
    by blast
  from in_attr_ok [where f = "\<lambda>inner. in_attr inner ''layers'' (for_in modify_layer)", OF fm r1]
  obtain model' where
    r2: "in_attr (freeze model) ''model''
           (\<lambda>inner. in_attr inner ''layers'' (for_in modify_layer)) = Inr model'"
    and a2: "\<forall>n. attr model' n = (if n = ''model'' then Some inner' else attr (freeze model) n)"
    and m2: "\<forall>mu. additive mu \<longrightarrow> mu model' + mu (freeze inner) = mu (freeze model) + mu inner'"
    by blast
  from ism r2 have res: "modify_model_with_lora model = Inr model'"
    by (simp add: modify_model_with_lora_def)
  from a2 have am: "attr model' ''model'' = Some inner'"
    and fm': "\<forall>n. n \<noteq> ''model'' \<longrightarrow> attr model' n = map_option freeze (attr model n)"
    by (simp_all add: attr_freeze)
  from a1 have al: "attr inner' ''layers'' = Some (ModuleList ls')"
    and fl': "\<forall>n. n \<noteq> ''layers'' \<longrightarrow> attr inner' n = map_option freeze (attr inner n)"
    by (simp_all add: attr_freeze)
  from len have len': "length ls' = length ls"
    by simp
  from each have layers: "\<forall>i < length ls. modify_layer (freeze (ls ! i)) = Inr (ls' ! i)"
    by simp
  have count: "mu model' = mu (freeze model) + d * sum_list (map layer_injections ls)"
    if add: "additive mu" and w: "wrapper_adds mu d" for mu d
  proof -
    from each add w have
      "\<forall>i < length ?fls. mu (ls' ! i) = mu (?fls ! i) + d * layer_injections (?fls ! i)"
      by blast
    from sum_list_pointwise [OF len this] have
      "sum_list (map mu ls') =
         sum_list (map mu ?fls) + sum_list (map (\<lambda>l. d * layer_injections l) ?fls)" .
    also have "sum_list (map (\<lambda>l. d * layer_injections l) ?fls) =
         d * sum_list (map layer_injections ls)"
      by (simp add: sum_list_const_mult comp_def layer_injections_freeze)
    finally have "mu (ModuleList ls') =
         mu (ModuleList ?fls) + d * sum_list (map layer_injections ls)"
      using add by (simp add: additive_def)
    moreover from m1 add have
      "mu inner' + mu (ModuleList ?fls) = mu (freeze inner) + mu (ModuleList ls')"
      by blast
    moreover from m2 add have "mu model' + mu (freeze inner) = mu (freeze model) + mu inner'"
      by blast
    ultimately show ?thesis
      by simp
  qed
  from res am al len' fm' fl' layers count show ?thesis
    by blast
qed



lemma wrapper_adds_count_lora: "wrapper_adds count_lora 1"
  by (simp add: wrapper_adds_def)

lemma wrapper_adds_trainable_arrays: "wrapper_adds trainable_arrays 0"
  by (simp add: wrapper_adds_def)

lemma wrapper_adds_trainable_adapters: "wrapper_adds trainable_adapters 1"
  by (simp add: wrapper_adds_def)

lemma modify_frozen_layer:
  assumes wf: "well_formed_layer l" and sa: "attr l ''self_attn'' = Some sa"
    and res: "modify_layer (freeze l) = Inr l'"
  shows "\<exists>sa'. attr l' ''self_attn'' = Some sa' \<and>
           (\<forall>n. wrapped_attr (take 4 projections) (freeze sa) sa' n) \<and>
           (\<forall>n. n \<noteq> ''self_attn'' \<and> n \<noteq> ''block_sparse_moe'' \<longrightarrow>
              attr l' n = map_option freeze (attr l n)) \<and>
           (attr l ''block_sparse_moe'' = None \<longrightarrow> attr l' ''block_sparse_moe'' = None) \<and>
           (\<forall>moe. attr l ''block_sparse_moe'' = Some moe \<longrightarrow>
              (\<exists>moe'. modify_moe (freeze moe) = Inr moe' \<and>
                 attr l' ''block_sparse_moe'' = Some moe')) \<and>
           (\<forall>mu d. additive mu \<longrightarrow> wrapper_adds mu d \<longrightarrow>
              mu l' = mu (freeze l) + d * layer_injections l)"
proof -
  from wf have wf': "well_formed_layer (freeze l)"
    by (simp add: well_formed_layer_freeze)
  from sa have sa': "attr (freeze l) ''self_attn'' = Some (freeze sa)"
    by (simp add: attr_freeze)
  from modify_layer_ok [OF wf' sa'] res show ?thesis
    by (auto simp: attr_freeze layer_injections_freeze)
qed

subsection \<open>The claims about the injector\<close>

lemma attention_only_layer_well_formed:
  assumes "attention_only_layer l"
  shows "well_formed_layer l" and "layer_injections l = 4"
    and "\<exists>sa. attr l ''self_attn'' = Some sa \<and>
           (\<forall>n \<in> set (take 4 projections). \<exists>lin. attr sa n = Some lin)"
    and "attr l ''block_sparse_moe'' = None"
proof -
  from assms obtain sa where sa: "attr l ''self_attn'' = Some sa"
    and no: "attr l ''block_sparse_moe'' = None"
    and all: "list_all (\<lambda>n. case attr sa n of None \<Rightarrow> False | Some lin \<Rightarrow> is_linear lin)
                (take 4 projections)"
    by (auto simp: attention_only_layer_def split: option.splits)
  from all have "linear_where_present (take 4 projections) sa"
    by (auto simp: linear_where_present_def list_all_iff split: option.splits)
  with sa no show "well_formed_layer l"
    by (simp add: well_formed_layer_def)
  from all have "filter (hasattr sa) (take 4 projections) = take 4 projections"
    by (auto simp: list_all_iff hasattr_def split: option.splits)
  then have "present sa (take 4 projections) = 4"
    by (simp add: present_def projections_def)
  with sa no show "layer_injections l = 4"
    by (simp add: layer_injections_def)
  from all have "\<forall>n \<in> set (take 4 projections). \<exists>lin. attr sa n = Some lin"
    by (auto simp: list_all_iff split: option.splits)
  with sa show "\<exists>sa. attr l ''self_attn'' = Some sa \<and>
      (\<forall>n \<in> set (take 4 projections). \<exists>lin. attr sa n = Some lin)"
    by blast
  from no show "attr l ''block_sparse_moe'' = None" .
qed

lemma sum_list_all_equal:
  "\<forall>x \<in> set xs. f x = (c :: nat) \<Longrightarrow> sum_list (map f xs) = c * length xs"
  by (induction xs) auto

text \<open>
  C1: on a tree with \<open>N\<close> layers, each exposing all four attention projections and with no
  mixture-of-experts block, the injector succeeds. Everything outside the attention blocks
  is the frozen original; in each attention block the four projections are wrappers, with
  \<open>r = 64\<close> and \<open>alpha = 128\<close>, around the frozen original projections (so the freeze came
  first) and the rest is the frozen original. The tree has \<open>4N\<close> wrappers more than before,
  no array in it is trainable, and the trainable low-rank pairs are those of the \<open>4N\<close> new
  wrappers.
\<close>

theorem inject_attention_only:
  assumes m: "attr model ''model'' = Some inner"
    and ls: "attr inner ''layers'' = Some (ModuleList ls)"
    and att: "list_all attention_only_layer ls"
  shows "\<exists>model' inner' ls'.
           modify_model_with_lora model = Inr model' \<and>
           attr model' ''model'' = Some inner' \<and>
           attr inner' ''layers'' = Some (ModuleList ls') \<and>
           length ls' = length ls \<and>
           (\<forall>n. n \<noteq> ''model'' \<longrightarrow> attr model' n = map_option freeze (attr model n)) \<and>
           (\<forall>n. n \<noteq> ''layers'' \<longrightarrow> attr inner' n = map_option freeze (attr inner n)) \<and>
           (\<forall>i < length ls.
              (\<forall>n. n \<noteq> ''self_attn'' \<longrightarrow>
                 attr (ls' ! i) n = map_option freeze (attr (ls ! i) n)) \<and>
              (\<exists>sa sa'. attr (ls ! i) ''self_attn'' = Some sa \<and>
                 attr (ls' ! i) ''self_attn'' = Some sa' \<and>
                 (\<forall>n \<in> set (take 4 projections). \<exists>lin. attr sa n = Some lin \<and>
                    attr sa' n = Some (LoRALinear (freeze lin) 64 128 True)) \<and>
                 (\<forall>n. n \<notin> set (take 4 projections) \<longrightarrow>
                    attr sa' n = map_option freeze (attr sa n)))) \<and>
           count_lora model' = count_lora model + 4 * length ls \<and>
           trainable_arrays model' = 0 \<and>
           trainable_adapters model' = 4 * length ls"
proof -
  from att have each: "\<forall>l \<in> set ls. attention_only_layer l"
    by (simp add: list_all_iff)
  then have wf: "\<forall>l \<in> set ls. well_formed_layer l"
    using attention_only_layer_well_formed(1) by blast
  from each have "\<forall>l \<in> set ls. layer_injections l = 4"
    using attention_only_layer_well_formed(2) by blast
  then have total: "sum_list (map layer_injections ls) = 4 * length ls"
    by (rule sum_list_all_equal)
  from modify_model_ok [OF m ls wf] obtain model' inner' ls' where
    res: "modify_model_with_lora model = Inr model'"
    and am: "attr model' ''model'' = Some inner'"
    and al: "attr inner' ''layers'' = Some (ModuleList ls')"
    and len: "length ls' = length ls"
    and fm: "\<forall>n. n \<noteq> ''model'' \<longrightarrow> attr model' n = map_option freeze (attr model n)"
    and fl: "\<forall>n. n \<noteq> ''layers'' \<longrightarrow> attr inner' n = map_option freeze (attr inner n)"
    and layers: "\<forall>i < length ls. modify_layer (freeze (ls ! i)) = Inr (ls' ! i)"
    and count: "\<forall>mu d. additive mu \<longrightarrow> wrapper_adds mu d \<longrightarrow>
              mu model' = mu (freeze model) + d * sum_list (map layer_injections ls)"
    by blast
  have layer: "(\<forall>n. n \<noteq> ''self_attn'' \<longrightarrow>
                 attr (ls' ! i) n = map_option freeze (attr (ls ! i) n)) \<and>
              (\<exists>sa sa'. attr (ls ! i) ''self_attn'' = Some sa \<and>
                 attr (ls' ! i) ''self_attn'' = Some sa' \<and>
                 (\<forall>n \<in> set (take 4 projections). \<exists>lin. attr sa n = Some lin \<and>
                    attr sa' n = Some (LoRALinear (freeze lin) 64 128 True)) \<and>
                 (\<forall>n. n \<notin> set (take 4 projections) \<longrightarrow>
                    attr sa' n = map_option freeze (attr sa n)))"
    if i: "i < length ls" for i
  proof -
    from i each have a: "attention_only_layer (ls ! i)"
      by simp
    from attention_only_layer_well_formed [OF a] obtain sa where
      w: "well_formed_layer (ls ! i)" and sa: "attr (ls ! i) ''self_attn'' = Some sa"
      and four: "\<forall>n \<in> set (take 4 projections). \<exists>lin. attr sa n = Some lin"
      and no: "attr (ls ! i) ''block_sparse_moe'' = None"
      by blast
    from layers i have r: "modify_layer (freeze (ls ! i)) = Inr (ls' ! i)"
      by simp
    from modify_frozen_layer [OF w sa r] obtain sa' where
      s': "attr (ls' ! i) ''self_attn'' = Some sa'"
      and wr: "\<forall>n. wrapped_attr (take 4 projections) (freeze sa) sa' n"
      and fr: "\<forall>n. n \<noteq> ''self_attn'' \<and> n \<noteq> ''block_sparse_moe'' \<longrightarrow>
              attr (ls' ! i) n = map_option freeze (attr (ls ! i) n)"
      and nm: "attr (ls ! i) ''block_sparse_moe'' = None \<longrightarrow>
              attr (ls' ! i) ''block_sparse_moe'' = None"
      and "\<forall>moe. attr (ls ! i) ''block_sparse_moe'' = Some moe \<longrightarrow>
              (\<exists>moe'. modify_moe (freeze moe) = Inr moe' \<and>
                 attr (ls' ! i) ''block_sparse_moe'' = Some moe')"
      and "\<forall>mu d. additive mu \<longrightarrow> wrapper_adds mu d \<longrightarrow>
              mu (ls' ! i) = mu (freeze (ls ! i)) + d * layer_injections (ls ! i)"
      by (elim exE conjE)
    have "attr (ls' ! i) n = map_option freeze (attr (ls ! i) n)" if "n \<noteq> ''self_attn''" for n
    proof (cases "n = ''block_sparse_moe''")
      case True
      with nm no show ?thesis by simp
    next
      case False
      with fr that show ?thesis by simp
    qed
    then have other: "\<forall>n. n \<noteq> ''self_attn'' \<longrightarrow>
                 attr (ls' ! i) n = map_option freeze (attr (ls ! i) n)"
      by blast
    from wr have at: "attr sa' n =
        (if n \<in> set (take 4 projections)
         then map_option (\<lambda>lin. LoRALinear lin 64 128 True) (map_option freeze (attr sa n))
         else map_option freeze (attr sa n))" for n
      by (simp add: wrapped_attr_def attr_freeze)
    have inside: "\<exists>lin. attr sa n = Some lin \<and>
        attr sa' n = Some (LoRALinear (freeze lin) 64 128 True)"
      if n: "n \<in> set (take 4 projections)" for n
    proof -
      from four n obtain lin where "attr sa n = Some lin"
        by blast
      with at [of n] n show ?thesis
        by simp
    qed
    have outside: "attr sa' n = map_option freeze (attr sa n)"
      if "n \<notin> set (take 4 projections)" for n
      using at [of n] that by simp
    from inside have in4: "\<forall>n \<in> set (take 4 projections). \<exists>lin. attr sa n = Some lin \<and>
        attr sa' n = Some (LoRALinear (freeze lin) 64 128 True)"
      by (rule ballI)
    from outside have out4: "\<forall>n. n \<notin> set (take 4 projections) \<longrightarrow>
        attr sa' n = map_option freeze (attr sa n)"
      by (intro allI impI)
    from other sa s' in4 out4 show ?thesis
      by (intro conjI exI [of _ sa] exI [of _ sa'])
  qed
  from count [rule_format, OF additive_count_lora wrapper_adds_count_lora] total
  have c1: "count_lora model' = count_lora model + 4 * length ls"
    by (simp add: freeze_count_lora)
  from count [rule_format, OF additive_trainable_arrays wrapper_adds_trainable_arrays]
  have c2: "trainable_arrays model' = 0"
    by (simp add: freeze_trainable_arrays)
  from count [rule_format, OF additive_trainable_adapters wrapper_adds_trainable_adapters] total
  have c3: "trainable_adapters model' = 4 * length ls"
    by (simp add: freeze_trainable_adapters)
  from res am al len fm fl layer c1 c2 c3 show ?thesis
    by blast
qed

lemma model_of_layers_shape:
  "attr (model_of_layers ls) ''model'' = Some (inner_of_layers ls)"
  "attr (inner_of_layers ls) ''layers'' = Some (ModuleList ls)"
  by (simp_all add: model_of_layers_def inner_of_layers_def)

theorem inject_attention_only_witness:
  "list_all attention_only_layer [dense_layer 10, dense_layer 20] \<and>
   (\<exists>model'. modify_model_with_lora dense_model = Inr model' \<and>
      count_lora model' = 8 \<and> trainable_arrays model' = 0 \<and> trainable_adapters model' = 8)"
proof -
  let ?ls = "[dense_layer 10, dense_layer 20]"
  have h: "list_all attention_only_layer ?ls"
    by code_simp
  have c: "count_lora dense_model = 0"
    by code_simp
  from inject_attention_only [OF model_of_layers_shape [of ?ls] h] obtain model' where
    "modify_model_with_lora dense_model = Inr model'"
    "count_lora model' = count_lora dense_model + 4 * length ?ls"
    "trainable_arrays model' = 0"
    "trainable_adapters model' = 4 * length ?ls"
    unfolding dense_model_def [symmetric] by (elim exE conjE)
  with h c show ?thesis
    by simp
qed

text \<open>
  C5: on a tree whose layers have the shape the code is written for, a layer whose attention
  block exposes \<^verbatim>\<open>q_proj\<close> and \<^verbatim>\<open>v_proj\<close> but neither \<^verbatim>\<open>k_proj\<close> nor \<^verbatim>\<open>o_proj\<close> raises no error:
  the injector succeeds, these two projections are wrappers around the frozen originals,
  \<^verbatim>\<open>k_proj\<close> and \<^verbatim>\<open>o_proj\<close> are still absent, every other attribute of the attention block and
  every attribute of the layer other than the attention block and the mixture-of-experts
  block is the frozen original, and a layer without a mixture-of-experts block still has
  none.
\<close>

theorem inject_skips_absent_projections:
  assumes m: "attr model ''model'' = Some inner"
    and ls: "attr inner ''layers'' = Some (ModuleList ls)"
    and wf: "list_all well_formed_layer ls"
    and i: "i < length ls"
    and sa: "attr (ls ! i) ''self_attn'' = Some sa"
    and q: "attr sa ''q_proj'' = Some q"
    and v: "attr sa ''v_proj'' = Some v"
    and k: "attr sa ''k_proj'' = None"
    and o: "attr sa ''o_proj'' = None"
  shows "\<exists>model' inner' ls' sa'.
           modify_model_with_lora model = Inr model' \<and>
           attr model' ''model'' = Some inner' \<and>
           attr inner' ''layers'' = Some (ModuleList ls') \<and>
           length ls' = length ls \<and>
           attr (ls' ! i) ''self_attn'' = Some sa' \<and>
           attr sa' ''q_proj'' = Some (LoRALinear (freeze q) 64 128 True) \<and>
           attr sa' ''v_proj'' = Some (LoRALinear (freeze v) 64 128 True) \<and>
           attr sa' ''k_proj'' = None \<and>
           attr sa' ''o_proj'' = None \<and>
           (\<forall>n. n \<noteq> ''q_proj'' \<and> n \<noteq> ''v_proj'' \<longrightarrow>
              attr sa' n = map_option freeze (attr sa n)) \<and>
           (\<forall>n. n \<noteq> ''self_attn'' \<and> n \<noteq> ''block_sparse_moe'' \<longrightarrow>
              attr (ls' ! i) n = map_option freeze (attr (ls ! i) n)) \<and>
           (attr (ls ! i) ''block_sparse_moe'' = None \<longrightarrow>
              attr (ls' ! i) ''block_sparse_moe'' = None)"
proof -
  from wf have all: "\<forall>l \<in> set ls. well_formed_layer l"
    by (simp add: list_all_iff)
  with i have w: "well_formed_layer (ls ! i)"
    by simp
  from modify_model_ok [OF m ls all] obtain model' inner' ls' where
    res: "modify_model_with_lora model = Inr model'"
    and am: "attr model' ''model'' = Some inner'"
    and al: "attr inner' ''layers'' = Some (ModuleList ls')"
    and len: "length ls' = length ls"
    and "\<forall>n. n \<noteq> ''model'' \<longrightarrow> attr model' n = map_option freeze (attr model n)"
    and "\<forall>n. n \<noteq> ''layers'' \<longrightarrow> attr inner' n = map_option freeze (attr inner n)"
    and layers: "\<forall>i < length ls. modify_layer (freeze (ls ! i)) = Inr (ls' ! i)"
    and "\<forall>mu d. additive mu \<longrightarrow> wrapper_adds mu d \<longrightarrow>
              mu model' = mu (freeze model) + d * sum_list (map layer_injections ls)"
    by (elim exE conjE)
  from layers i have r: "modify_layer (freeze (ls ! i)) = Inr (ls' ! i)"
    by simp
  from modify_frozen_layer [OF w sa r] obtain sa' where
    s': "attr (ls' ! i) ''self_attn'' = Some sa'"
    and wr: "\<forall>n. wrapped_attr (take 4 projections) (freeze sa) sa' n"
    and fr: "\<forall>n. n \<noteq> ''self_attn'' \<and> n \<noteq> ''block_sparse_moe'' \<longrightarrow>
            attr (ls' ! i) n = map_option freeze (attr (ls ! i) n)"
    and nm: "attr (ls ! i) ''block_sparse_moe'' = None \<longrightarrow>
            attr (ls' ! i) ''block_sparse_moe'' = None"
    and "\<forall>moe. attr (ls ! i) ''block_sparse_moe'' = Some moe \<longrightarrow>
            (\<exists>moe'. modify_moe (freeze moe) = Inr moe' \<and>
               attr (ls' ! i) ''block_sparse_moe'' = Some moe')"
    and "\<forall>mu d. additive mu \<longrightarrow> wrapper_adds mu d \<longrightarrow>
            mu (ls' ! i) = mu (freeze (ls ! i)) + d * layer_injections (ls ! i)"
    by (elim exE conjE)
  have at: "attr sa' n =
      (if n \<in> set (take 4 projections)
       then map_option (\<lambda>lin. LoRALinear lin 64 128 True) (map_option freeze (attr sa n))
       else map_option freeze (attr sa n))" for n
    using wr by (simp add: wrapped_attr_def attr_freeze)
  from at [of "''q_proj''"] q have q': "attr sa' ''q_proj'' = Some (LoRALinear (freeze q) 64 128 True)"
    by (simp add: projections_split)
  from at [of "''v_proj''"] v have v': "attr sa' ''v_proj'' = Some (LoRALinear (freeze v) 64 128 True)"
    by (simp add: projections_split)
  from at [of "''k_proj''"] k have k': "attr sa' ''k_proj'' = None"
    by (simp add: projections_split)
  from at [of "''o_proj''"] o have o': "attr sa' ''o_proj'' = None"
    by (simp add: projections_split)
  have rest: "attr sa' n = map_option freeze (attr sa n)"
    if "n \<noteq> ''q_proj'' \<and> n \<noteq> ''v_proj''" for n
    using at [of n] that k o by (auto simp: projections_split)
  from res am al len s' q' v' k' o' rest fr nm show ?thesis
    by (intro exI [of _ model'] exI [of _ inner'] exI [of _ ls'] exI [of _ sa'] conjI) simp_all
qed


theorem inject_skips_absent_projections_witness:
  "list_all well_formed_layer [dense_layer 20, partial_layer] \<and>
   attr partial_attention ''k_proj'' = None \<and>
   attr partial_attention ''o_proj'' = None \<and>
   (\<exists>model' inner' ls' sa'.
      modify_model_with_lora partial_model = Inr model' \<and>
      attr model' ''model'' = Some inner' \<and>
      attr inner' ''layers'' = Some (ModuleList ls') \<and>
      attr (ls' ! 1) ''self_attn'' = Some sa' \<and>
      attr sa' ''q_proj'' = Some (LoRALinear (freeze (linear 11)) 64 128 True) \<and>
      attr sa' ''v_proj'' = Some (LoRALinear (freeze (linear 13)) 64 128 True) \<and>
      attr sa' ''k_proj'' = None \<and>
      attr sa' ''o_proj'' = None \<and>
      attr sa' ''out_proj'' = Some (freeze (linear 14)))"
proof -
  let ?ls = "[dense_layer 20, partial_layer]"
  have wf: "list_all well_formed_layer ?ls"
    by code_simp
  have i: "1 < length ?ls"
    by simp
  have sa: "attr (?ls ! 1) ''self_attn'' = Some partial_attention"
    by (simp add: partial_layer_def)
  have q: "attr partial_attention ''q_proj'' = Some (linear 11)"
    and v: "attr partial_attention ''v_proj'' = Some (linear 13)"
    and k: "attr partial_attention ''k_proj'' = None"
    and o: "attr partial_attention ''o_proj'' = None"
    and out: "attr partial_attention ''out_proj'' = Some (linear 14)"
    by (simp_all add: partial_attention_def)
  from inject_skips_absent_projections [OF model_of_layers_shape [of ?ls] wf i sa q v k o]
  obtain model' inner' ls' sa' where
    r: "modify_model_with_lora partial_model = Inr model'"
      "attr model' ''model'' = Some inner'"
      "attr inner' ''layers'' = Some (ModuleList ls')"
    and "length ls' = length ?ls"
    and a: "attr (ls' ! 1) ''self_attn'' = Some sa'"
      "attr sa' ''q_proj'' = Some (LoRALinear (freeze (linear 11)) 64 128 True)"
      "attr sa' ''v_proj'' = Some (LoRALinear (freeze (linear 13)) 64 128 True)"
      "attr sa' ''k_proj'' = None"
      "attr sa' ''o_proj'' = None"
    and rest: "\<forall>n. n \<noteq> ''q_proj'' \<and> n \<noteq> ''v_proj'' \<longrightarrow>
       attr sa' n = map_option freeze (attr partial_attention n)"
    and "\<forall>n. n \<noteq> ''self_attn'' \<and> n \<noteq> ''block_sparse_moe'' \<longrightarrow>
       attr (ls' ! 1) n = map_option freeze (attr (?ls ! 1) n)"
    and "attr (?ls ! 1) ''block_sparse_moe'' = None \<longrightarrow>
       attr (ls' ! 1) ''block_sparse_moe'' = None"
    unfolding partial_model_def [symmetric] by (elim exE conjE)
  from rest out have b: "attr sa' ''out_proj'' = Some (freeze (linear 14))"
    by simp
  from wf k o r a b show ?thesis
    by (intro conjI exI [of _ model'] exI [of _ inner'] exI [of _ ls'] exI [of _ sa'])
qed

text \<open>
  C4: on a tree whose layers have the shape the code is written for, in every layer with a
  mixture-of-experts block the block's \<^verbatim>\<open>gate_proj\<close>, \<^verbatim>\<open>up_proj\<close> and \<^verbatim>\<open>down_proj\<close>, where
  present, are wrappers around the frozen originals, and in every expert of the block each
  of the seven projections, where present, is a wrapper around the frozen original;
  whatever is absent stays absent and everything else is the frozen original.
\<close>

theorem inject_mixture_of_experts:
  assumes m: "attr model ''model'' = Some inner"
    and ls: "attr inner ''layers'' = Some (ModuleList ls)"
    and wf: "list_all well_formed_layer ls"
    and i: "i < length ls"
    and moe: "attr (ls ! i) ''block_sparse_moe'' = Some moe"
    and es: "attr moe ''experts'' = Some (ModuleList es)"
  shows "\<exists>model' inner' ls' moe' es'.
           modify_model_with_lora model = Inr model' \<and>
           attr model' ''model'' = Some inner' \<and>
           attr inner' ''layers'' = Some (ModuleList ls') \<and>
           length ls' = length ls \<and>
           attr (ls' ! i) ''block_sparse_moe'' = Some moe' \<and>
           (\<forall>n. n \<noteq> ''experts'' \<longrightarrow> wrapped_attr (drop 4 projections) (freeze moe) moe' n) \<and>
           attr moe' ''experts'' = Some (ModuleList es') \<and>
           length es' = length es \<and>
           (\<forall>j < length es. \<forall>n. wrapped_attr projections (freeze (es ! j)) (es' ! j) n)"
proof -
  from wf have all: "\<forall>l \<in> set ls. well_formed_layer l"
    by (simp add: list_all_iff)
  with i have w: "well_formed_layer (ls ! i)"
    by simp
  then obtain sa where sa: "attr (ls ! i) ''self_attn'' = Some sa"
    by (auto simp: well_formed_layer_def split: option.splits)
  from w sa moe have "well_formed_moe moe"
    by (simp add: well_formed_layer_def)
  then have wm: "well_formed_moe (freeze moe)"
    by (simp add: well_formed_moe_freeze)
  from es have fes: "attr (freeze moe) ''experts'' = Some (ModuleList (map freeze es))"
    by (simp add: attr_freeze)
  from modify_model_ok [OF m ls all] obtain model' inner' ls' where
    res: "modify_model_with_lora model = Inr model'"
    and am: "attr model' ''model'' = Some inner'"
    and al: "attr inner' ''layers'' = Some (ModuleList ls')"
    and len: "length ls' = length ls"
    and "\<forall>n. n \<noteq> ''model'' \<longrightarrow> attr model' n = map_option freeze (attr model n)"
    and "\<forall>n. n \<noteq> ''layers'' \<longrightarrow> attr inner' n = map_option freeze (attr inner n)"
    and layers: "\<forall>i < length ls. modify_layer (freeze (ls ! i)) = Inr (ls' ! i)"
    and "\<forall>mu d. additive mu \<longrightarrow> wrapper_adds mu d \<longrightarrow>
              mu model' = mu (freeze model) + d * sum_list (map layer_injections ls)"
    by (elim exE conjE)
  from layers i have r: "modify_layer (freeze (ls ! i)) = Inr (ls' ! i)"
    by simp
  from modify_frozen_layer [OF w sa r] obtain sa' where
    "attr (ls' ! i) ''self_attn'' = Some sa'"
    and "\<forall>n. wrapped_attr (take 4 projections) (freeze sa) sa' n"
    and "\<forall>n. n \<noteq> ''self_attn'' \<and> n \<noteq> ''block_sparse_moe'' \<longrightarrow>
            attr (ls' ! i) n = map_option freeze (attr (ls ! i) n)"
    and "attr (ls ! i) ''block_sparse_moe'' = None \<longrightarrow>
            attr (ls' ! i) ''block_sparse_moe'' = None"
    and mm: "\<forall>moe. attr (ls ! i) ''block_sparse_moe'' = Some moe \<longrightarrow>
            (\<exists>moe'. modify_moe (freeze moe) = Inr moe' \<and>
               attr (ls' ! i) ''block_sparse_moe'' = Some moe')"
    and "\<forall>mu d. additive mu \<longrightarrow> wrapper_adds mu d \<longrightarrow>
            mu (ls' ! i) = mu (freeze (ls ! i)) + d * layer_injections (ls ! i)"
    by (elim exE conjE)
  from mm moe obtain moe' where
    rm: "modify_moe (freeze moe) = Inr moe'"
    and am': "attr (ls' ! i) ''block_sparse_moe'' = Some moe'"
    by blast
  from modify_moe_ok [OF wm fes] rm obtain es' where
    ae: "attr moe' ''experts'' = Some (ModuleList es')"
    and le: "length es' = length (map freeze es)"
    and frame: "\<forall>n. n \<noteq> ''experts'' \<longrightarrow> wrapped_attr (drop 4 projections) (freeze moe) moe' n"
    and ex: "\<forall>j < length (map freeze es).
               \<forall>n. wrapped_attr projections (map freeze es ! j) (es' ! j) n"
    by auto
  from le have le': "length es' = length es"
    by simp
  from ex have ex': "\<forall>j < length es. \<forall>n. wrapped_attr projections (freeze (es ! j)) (es' ! j) n"
    by simp
  from res am al len am' frame ae le' ex' show ?thesis
    by (intro exI [of _ model'] exI [of _ inner'] exI [of _ ls'] exI [of _ moe']
        exI [of _ es'] conjI) simp_all
qed

theorem inject_mixture_of_experts_witness:
  "list_all well_formed_layer [moe_layer] \<and>
   (\<exists>model' inner' ls' moe' es'.
      modify_model_with_lora moe_model = Inr model' \<and>
      attr model' ''model'' = Some inner' \<and>
      attr inner' ''layers'' = Some (ModuleList ls') \<and>
      attr (ls' ! 0) ''block_sparse_moe'' = Some moe' \<and>
      attr moe' ''gate_proj'' = Some (LoRALinear (freeze (linear 30)) 64 128 True) \<and>
      attr moe' ''up_proj'' = None \<and>
      attr moe' ''router'' = Some (freeze (linear 31)) \<and>
      attr moe' ''experts'' = Some (ModuleList es') \<and>
      length es' = 2 \<and>
      attr (es' ! 1) ''down_proj'' = Some (LoRALinear (freeze (linear 53)) 64 128 True) \<and>
      attr (es' ! 1) ''q_proj'' = None)"
proof -
  let ?ls = "[moe_layer]"
  let ?es = "[expert 40, expert 50]"
  have wf: "list_all well_formed_layer ?ls"
    by code_simp
  have i: "0 < length ?ls"
    by simp
  have moe: "attr (?ls ! 0) ''block_sparse_moe'' = Some moe_block"
    by (simp add: moe_layer_def)
  have es: "attr moe_block ''experts'' = Some (ModuleList ?es)"
    by (simp add: moe_block_def)
  from inject_mixture_of_experts [OF model_of_layers_shape [of ?ls] wf i moe es]
  obtain model' inner' ls' moe' es' where
    r: "modify_model_with_lora moe_model = Inr model'"
      "attr model' ''model'' = Some inner'"
      "attr inner' ''layers'' = Some (ModuleList ls')"
    and "length ls' = length ?ls"
    and a: "attr (ls' ! 0) ''block_sparse_moe'' = Some moe'"
    and frame: "\<forall>n. n \<noteq> ''experts'' \<longrightarrow> wrapped_attr (drop 4 projections) (freeze moe_block) moe' n"
    and e: "attr moe' ''experts'' = Some (ModuleList es')"
    and len: "length es' = length ?es"
    and ex: "\<forall>j < length ?es. \<forall>n. wrapped_attr projections (freeze (?es ! j)) (es' ! j) n"
    unfolding moe_model_def [symmetric] by (elim exE conjE)
  from frame have b:
    "attr moe' ''gate_proj'' = Some (LoRALinear (freeze (linear 30)) 64 128 True)"
    "attr moe' ''up_proj'' = None"
    "attr moe' ''router'' = Some (freeze (linear 31))"
    by (simp_all add: wrapped_attr_def projections_split attr_freeze moe_block_def)
  from ex [rule_format, of 1] have c:
    "attr (es' ! 1) ''down_proj'' = Some (LoRALinear (freeze (linear 53)) 64 128 True)"
    "attr (es' ! 1) ''q_proj'' = None"
    by (simp_all add: wrapped_attr_def projections_def attr_freeze expert_def)
  from len have l2: "length es' = 2"
    by simp
  from wf r a b(1) b(2) b(3) e l2 c show ?thesis
    by (intro conjI exI [of _ model'] exI [of _ inner'] exI [of _ ls'] exI [of _ moe']
        exI [of _ es'])
qed

section \<open>Property of \<^verbatim>\<open>train_model\<close>\<close>

text \<open>
  C9: whatever the arguments, \<^verbatim>\<open>train_model\<close> calls the library's \<^verbatim>\<open>train\<close> once, with the
  model, the tokenizer and the two accessors it was given, the training arguments
  \<open>batch_size = 1\<close>, \<open>iters = 5000\<close>, \<open>val_batches = 25\<close>, \<open>steps_per_report = 10\<close>,
  \<open>steps_per_eval = 200\<close>, \<open>steps_per_save = 200\<close>, \<^verbatim>\<open>adapter_file = "adapters.npz"\<close> and
  \<open>max_seq_length = 4096\<close>, and an \<^verbatim>\<open>AdamW\<close> optimizer whose learning rate is the cosine decay
  from \<^verbatim>\<open>1e-5\<close> over the 5000 iterations.
\<close>

theorem train_model_call:
  "train_model mdl tok train_dst valid_dst =
     \<lparr>kw_model = mdl, kw_tokenizer = tok,
      kw_args = \<lparr>batch_size = 1, iters = 5000, val_batches = 25, steps_per_report = 10,
                 steps_per_eval = 200, steps_per_save = 200, adapter_file = ''adapters.npz'',
                 max_seq_length = 4096\<rparr>,
      kw_optimizer = AdamW (Cosine_decay (Scientific 1 (- 5)) 5000),
      kw_train_dataset = train_dst, kw_val_dataset = valid_dst\<rparr>"
  by (simp add: train_model_def)

end
